theory Spec2Isabelle
  imports Complex_Main "HOL-Library.Multiset"
begin

section \<open>Values of type double\<close>

text \<open>
  A C or Matlab \<^verbatim>\<open>double\<close> is modelled as an exact real number or one of the three
  special values of IEEE 754 arithmetic. The special values follow IEEE 754: a non-zero
  finite value divided by zero is an infinity, \<open>0 / 0\<close>, \<open>\<infinity> - \<infinity>\<close> and \<open>0 * \<infinity>\<close> are
  NaN, and NaN propagates through every operation.

  A product or a quotient of finite values leaves the finite range as it does in
  binary64 with rounding to nearest: from \<open>2 ^ 1024 - 2 ^ 970\<close> on (the largest finite
  double plus half a unit in its last place) it is an infinity, up to \<open>1 / 2 ^ 1075\<close>
  (half the smallest subnormal) it is zero; in between it is the exact value. A sum of
  finite values is the exact sum: the statements about sums below are the ones of exact
  arithmetic, where the order of a summation does not matter, and none of them
  concludes that a sum is finite. Rounding to 53 bits and the sign of zero are left
  out.
\<close>

datatype double = Fin real | PInf | NInf | NaN

fun is_finite :: "double \<Rightarrow> bool" where
  "is_finite (Fin r) = True"
| "is_finite PInf = False"
| "is_finite NInf = False"
| "is_finite NaN = False"

text \<open>A finite value of magnitude at most \<open>b\<close>.\<close>

fun bounded_by :: "real \<Rightarrow> double \<Rightarrow> bool" where
  "bounded_by b (Fin r) = (\<bar>r\<bar> \<le> b)"
| "bounded_by b PInf = False"
| "bounded_by b NInf = False"
| "bounded_by b NaN = False"

instantiation double :: "{zero, plus, uminus, minus, times, inverse}"
begin

definition zero_double :: double where
  "zero_double = Fin 0"

fun plus_double :: "double \<Rightarrow> double \<Rightarrow> double" where
  "plus_double (Fin a) (Fin b) = Fin (a + b)"
| "plus_double NaN y = NaN"
| "plus_double x NaN = NaN"
| "plus_double PInf NInf = NaN"
| "plus_double NInf PInf = NaN"
| "plus_double PInf y = PInf"
| "plus_double x PInf = PInf"
| "plus_double NInf y = NInf"
| "plus_double x NInf = NInf"

fun uminus_double :: "double \<Rightarrow> double" where
  "uminus_double (Fin a) = Fin (- a)"
| "uminus_double PInf = NInf"
| "uminus_double NInf = PInf"
| "uminus_double NaN = NaN"

definition minus_double :: "double \<Rightarrow> double \<Rightarrow> double" where
  "minus_double x y = x + (- y)"

text \<open>The infinity with the sign of a product or quotient; no sign when a factor is zero.\<close>

fun signed_inf :: "real \<Rightarrow> double" where
  "signed_inf r = (if 0 < r then PInf else if r < 0 then NInf else NaN)"

text \<open>The double nearest to an exact product or quotient, as far as its range goes.\<close>

definition to_double :: "real \<Rightarrow> double" where
  "to_double x =
     (if 2 ^ 1024 - 2 ^ 970 \<le> \<bar>x\<bar> then signed_inf x
      else if \<bar>x\<bar> \<le> 1 / 2 ^ 1075 then Fin 0
      else Fin x)"

fun times_double :: "double \<Rightarrow> double \<Rightarrow> double" where
  "times_double (Fin a) (Fin b) = to_double (a * b)"
| "times_double NaN y = NaN"
| "times_double x NaN = NaN"
| "times_double PInf (Fin b) = signed_inf b"
| "times_double NInf (Fin b) = signed_inf (- b)"
| "times_double (Fin a) PInf = signed_inf a"
| "times_double (Fin a) NInf = signed_inf (- a)"
| "times_double PInf PInf = PInf"
| "times_double NInf NInf = PInf"
| "times_double PInf NInf = NInf"
| "times_double NInf PInf = NInf"

fun divide_double :: "double \<Rightarrow> double \<Rightarrow> double" where
  "divide_double (Fin a) (Fin b) = (if b = 0 then signed_inf a else to_double (a / b))"
| "divide_double NaN y = NaN"
| "divide_double x NaN = NaN"
| "divide_double (Fin a) PInf = Fin 0"
| "divide_double (Fin a) NInf = Fin 0"
| "divide_double PInf (Fin b) = (if b < 0 then NInf else PInf)"
| "divide_double NInf (Fin b) = (if b < 0 then PInf else NInf)"
| "divide_double PInf y = NaN"
| "divide_double NInf y = NaN"

definition inverse_double :: "double \<Rightarrow> double" where
  "inverse_double x = divide (Fin 1) x"

instance ..

end

text \<open>The exact addition is associative and commutative also on the special values.\<close>

instance double :: comm_monoid_add
proof (intro_classes, goal_cases)
  case (1 u v w)
  show ?case by (cases u; cases v; cases w; simp)
next
  case (2 u v)
  show ?case by (cases u; cases v; simp)
next
  case (3 u)
  show ?case by (cases u; simp add: zero_double_def)
qed

section \<open>The C engine: \<^verbatim>\<open>AdaptiveFilter.h\<close> and \<^verbatim>\<open>AdaptiveFilter.c\<close>\<close>

text \<open>
  The struct \<^verbatim>\<open>AfData\<close>. The two arrays behind \<^verbatim>\<open>pBuffer\<close> and \<^verbatim>\<open>pWeights\<close> are lists
  (two separate arrays, as in the test program); \<^verbatim>\<open>Length\<close> and \<^verbatim>\<open>BufferIdx\<close> are
  \<^verbatim>\<open>unsigned int\<close>, modelled as naturals.
\<close>

record AfData =
  StepSize :: double
  Regularization :: double
  Length :: nat
  pBuffer :: "double list"
  BufferIdx :: nat
  pWeights :: "double list"
  Error :: double

text \<open>
  An array access \<^verbatim>\<open>p[i]\<close>. Outside the array the behaviour of the C program is undefined:
  the model stops with \<open>None\<close>.
\<close>

definition rd :: "'a list \<Rightarrow> nat \<Rightarrow> 'a option" where
  "rd xs i = (if i < length xs then Some (xs ! i) else None)"

definition wr :: "'a list \<Rightarrow> nat \<Rightarrow> 'a \<Rightarrow> 'a list option" where
  "wr xs i v = (if i < length xs then Some (xs[i := v]) else None)"

text \<open>
  The loop counter \<^verbatim>\<open>int i = pData->Length - 1\<close>: the subtraction is the one of
  \<^verbatim>\<open>unsigned int\<close> (32 bits, modulo \<open>2 ^ 32\<close>), and the result is converted to a 32-bit
  \<^verbatim>\<open>int\<close> in two's complement.
\<close>

definition loop_start :: "nat \<Rightarrow> int" where
  "loop_start len =
     (let u = (len + 2 ^ 32 - 1) mod 2 ^ 32
      in if u < 2 ^ 31 then int u else int u - 2 ^ 32)"

text \<open>The test \<^verbatim>\<open>if (pData->BufferIdx >= pData->Length) pData->BufferIdx = 0;\<close>.\<close>

definition wrap_index :: "AfData \<Rightarrow> AfData" where
  "wrap_index s = (if BufferIdx s \<ge> Length s then s\<lparr>BufferIdx := 0\<rparr> else s)"

text \<open>\<^verbatim>\<open>SquaredNorm\<close>: the loop \<^verbatim>\<open>for (i = 0; i < length; i++) output += pInput[i]*pInput[i];\<close>.\<close>

function SquaredNorm_loop :: "nat \<Rightarrow> double list \<Rightarrow> nat \<Rightarrow> double \<Rightarrow> double option" where
  "SquaredNorm_loop i pInput len output =
     (if i < len then
        (case rd pInput i of
           None \<Rightarrow> None
         | Some x \<Rightarrow> SquaredNorm_loop (i + 1) pInput len (output + x * x))
      else Some output)"
  by pat_completeness auto
termination
  by (relation "measure (\<lambda>(i, pInput, len, output). len - i)") auto

definition SquaredNorm :: "double list \<Rightarrow> nat \<Rightarrow> double option" where
  "SquaredNorm pInput len = SquaredNorm_loop 0 pInput len 0"

text \<open>
  \<^verbatim>\<open>AdaptWeights\<close>: the loop \<^verbatim>\<open>for (i = Length - 1; i >= 0; i--)\<close> with the statement
  \<^verbatim>\<open>pWeights[i] += normStepSize * Error * pBuffer[BufferIdx++]\<close> after the wrap test.
\<close>

function AdaptWeights_loop :: "int \<Rightarrow> double \<Rightarrow> AfData \<Rightarrow> AfData option" where
  "AdaptWeights_loop i normStepSize s =
     (if i \<ge> 0 then
        (let s1 = wrap_index s in
         case rd (pBuffer s1) (BufferIdx s1) of
           None \<Rightarrow> None
         | Some x \<Rightarrow>
            (case rd (pWeights s1) (nat i) of
               None \<Rightarrow> None
             | Some w \<Rightarrow>
                 AdaptWeights_loop (i - 1) normStepSize
                   (s1\<lparr>pWeights := (pWeights s1)[nat i := w + normStepSize * Error s1 * x],
                       BufferIdx := BufferIdx s1 + 1\<rparr>)))
      else Some s)"
  by pat_completeness auto
termination
  by (relation "measure (\<lambda>(i, normStepSize, s). nat (i + 1))") auto

definition AdaptWeights :: "AfData \<Rightarrow> AfData option" where
  "AdaptWeights s =
     (case SquaredNorm (pBuffer s) (Length s) of
        None \<Rightarrow> None
      | Some sn \<Rightarrow>
          AdaptWeights_loop (loop_start (Length s))
            (StepSize s / (Regularization s + sn)) s)"

text \<open>
  \<^verbatim>\<open>Filter\<close>: the new input overwrites the slot under the cursor, then the loop
  \<^verbatim>\<open>output += pWeights[i] * pBuffer[BufferIdx++]\<close> runs from \<^verbatim>\<open>i = Length - 1\<close> down to 0.
\<close>

definition insert_sample :: "double \<Rightarrow> AfData \<Rightarrow> AfData option" where
  "insert_sample input s =
     (let s1 = wrap_index s in
      case wr (pBuffer s1) (BufferIdx s1) input of
        None \<Rightarrow> None
      | Some b \<Rightarrow> Some (s1\<lparr>pBuffer := b, BufferIdx := BufferIdx s1 + 1\<rparr>))"

function Filter_loop :: "int \<Rightarrow> double \<Rightarrow> AfData \<Rightarrow> (double \<times> AfData) option" where
  "Filter_loop i output s =
     (if i \<ge> 0 then
        (let s1 = wrap_index s in
         case rd (pWeights s1) (nat i) of
           None \<Rightarrow> None
         | Some w \<Rightarrow>
            (case rd (pBuffer s1) (BufferIdx s1) of
               None \<Rightarrow> None
             | Some x \<Rightarrow>
                 Filter_loop (i - 1) (output + w * x) (s1\<lparr>BufferIdx := BufferIdx s1 + 1\<rparr>)))
      else Some (output, s))"
  by pat_completeness auto
termination
  by (relation "measure (\<lambda>(i, output, s). nat (i + 1))") auto

definition Filter :: "double \<Rightarrow> AfData \<Rightarrow> (double \<times> AfData) option" where
  "Filter input s =
     (case insert_sample input s of
        None \<Rightarrow> None
      | Some s1 \<Rightarrow> Filter_loop (loop_start (Length s1)) 0 s1)"

definition AdaptiveFilterRun :: "double \<Rightarrow> double \<Rightarrow> AfData \<Rightarrow> (double \<times> AfData) option" where
  "AdaptiveFilterRun input desired s =
     (case Filter input s of
        None \<Rightarrow> None
      | Some (output, s1) \<Rightarrow>
          (case AdaptWeights (s1\<lparr>Error := desired - output\<rparr>) of
             None \<Rightarrow> None
           | Some s2 \<Rightarrow> Some (output, s2)))"

definition AdaptiveFilterRunErrorIn :: "double \<Rightarrow> double \<Rightarrow> AfData \<Rightarrow> (double \<times> AfData) option" where
  "AdaptiveFilterRunErrorIn input error s =
     (case AdaptWeights (s\<lparr>Error := error\<rparr>) of
        None \<Rightarrow> None
      | Some s1 \<Rightarrow> Filter input s1)"

text \<open>
  The test program drives the engine one sample at a time; a call is one of the two
  entry points with its two arguments.
\<close>

datatype call = Run double double | RunErrorIn double double

fun input_of :: "call \<Rightarrow> double" where
  "input_of (Run input desired) = input"
| "input_of (RunErrorIn input error) = input"

text \<open>The second argument of a call: the desired sample or the error sample.\<close>

fun reference_of :: "call \<Rightarrow> double" where
  "reference_of (Run input desired) = desired"
| "reference_of (RunErrorIn input error) = error"

fun step :: "call \<Rightarrow> AfData \<Rightarrow> (double \<times> AfData) option" where
  "step (Run input desired) s = AdaptiveFilterRun input desired s"
| "step (RunErrorIn input error) s = AdaptiveFilterRunErrorIn input error s"

text \<open>The outputs of a sequence of calls, in order, and the state after the last one.\<close>

fun drive :: "call list \<Rightarrow> AfData \<Rightarrow> (double list \<times> AfData) option" where
  "drive [] s = Some ([], s)"
| "drive (c # cs) s =
     (case step c s of
        None \<Rightarrow> None
      | Some (output, s1) \<Rightarrow>
          (case drive cs s1 of
             None \<Rightarrow> None
           | Some (outputs, s2) \<Rightarrow> Some (output # outputs, s2)))"

subsection \<open>The engine's state as the specification sees it\<close>

text \<open>
  A state the C functions can run on: at least one tap, \<^verbatim>\<open>Length - 1\<close> fits the
  \<^verbatim>\<open>int\<close> loop counter, and both arrays have \<^verbatim>\<open>Length\<close> elements.
\<close>

definition valid_engine :: "AfData \<Rightarrow> bool" where
  "valid_engine s \<longleftrightarrow>
     1 \<le> Length s \<and> Length s \<le> 2 ^ 31 \<and>
     length (pBuffer s) = Length s \<and> length (pWeights s) = Length s"

text \<open>
  The history window: index 0 is the newest sample, index \<open>Length - 1\<close> the oldest. The
  newest sample is in the slot before the (wrapped) cursor, the oldest under it.
\<close>

definition asVector :: "AfData \<Rightarrow> double list" where
  "asVector s =
     map (\<lambda>i. pBuffer s ! ((BufferIdx (wrap_index s) + Length s - 1 - i) mod Length s))
       [0..<Length s]"

definition inner_product :: "double list \<Rightarrow> double list \<Rightarrow> double" where
  "inner_product ws xs = sum_list (map2 (*) ws xs)"

definition energy :: "double list \<Rightarrow> double" where
  "energy xs = sum_list (map (\<lambda>x. x * x) xs)"

text \<open>The NLMS weight update of the specification, on a window \<open>win\<close>.\<close>

definition nlms_update ::
  "double \<Rightarrow> double \<Rightarrow> double \<Rightarrow> double list \<Rightarrow> double list \<Rightarrow> double list" where
  "nlms_update mu reg err win ws =
     map2 (\<lambda>w x. w + mu / (reg + energy win) * err * x) ws win"

text \<open>One cursor advance of the loops: the wrap test, then the increment.\<close>

definition advance :: "nat \<Rightarrow> nat \<Rightarrow> nat" where
  "advance len idx = (if idx \<ge> len then 0 else idx) + 1"

section \<open>The Matlab prototype: \<^verbatim>\<open>AdaptiveFir.m\<close>\<close>

text \<open>
  The arguments of the constructor are Matlab arrays of doubles with two dimensions,
  given by their size and their entries under the linear index (from 0 here);
  \<^verbatim>\<open>isvector\<close> holds of the sizes 1-by-N and N-by-1 for every \<open>N \<ge> 0\<close>, \<^verbatim>\<open>isscalar\<close> of
  the size 1-by-1.
\<close>

record marray =
  nrows :: nat
  ncols :: nat
  entry :: "nat \<Rightarrow> double"

definition isvector :: "marray \<Rightarrow> bool" where
  "isvector A \<longleftrightarrow> nrows A = 1 \<or> ncols A = 1"

definition isscalar :: "marray \<Rightarrow> bool" where
  "isscalar A \<longleftrightarrow> nrows A = 1 \<and> ncols A = 1"

definition numel :: "marray \<Rightarrow> nat" where
  "numel A = nrows A * ncols A"

text \<open>The array of the given size whose entries all are \<open>x\<close>, as \<^verbatim>\<open>x * ones(r, c)\<close>.\<close>

definition constant_array :: "nat \<Rightarrow> nat \<Rightarrow> double \<Rightarrow> marray" where
  "constant_array r c x = \<lparr>nrows = r, ncols = c, entry = (\<lambda>i. x)\<rparr>"

datatype merror = AssertionFailed string

text \<open>
  The object. \<^verbatim>\<open>Weights\<close> is a column vector (\<^verbatim>\<open>Weights(:)\<close>), kept as the list of its
  elements; \<^verbatim>\<open>Buffer\<close> is kept as the list of its elements and its size, which the
  constructor takes from the argument (\<^verbatim>\<open>zeros(size(Weights))\<close>); \<^verbatim>\<open>Error\<close> is empty
  (\<open>None\<close>) until a method assigns it.
\<close>

record AdaptiveFir =
  Buffer :: "double list"
  Buffer_size :: "nat \<times> nat"
  Weights :: "double list"
  StepSize_m :: double
  Error_m :: "double option"

definition AdaptiveFir_new :: "marray \<Rightarrow> marray \<Rightarrow> merror + AdaptiveFir" where
  "AdaptiveFir_new W S =
     (if \<not> isvector W then Inl (AssertionFailed ''Weights must be a vector.'')
      else if \<not> isscalar S then Inl (AssertionFailed ''StepSize must be a scalar.'')
      else Inr \<lparr>Buffer = replicate (numel W) 0, Buffer_size = (nrows W, ncols W),
                Weights = map (entry W) [0..<numel W],
                StepSize_m = entry S 0, Error_m = None\<rparr>)"

text \<open>
  The methods are modelled for an object whose \<^verbatim>\<open>Buffer\<close> is a column vector with as many
  elements as \<^verbatim>\<open>Weights\<close>, and at least one: what the constructor makes from an N-by-1
  weight vector. There \<^verbatim>\<open>[Input; Buffer(1:end-1)]\<close> is a column of the same length again,
  \<^verbatim>\<open>Weights'*Buffer\<close> is the inner product and the update of \<^verbatim>\<open>NLMS\<close> is elementwise.
  For any other object the model gives \<open>None\<close>. For a row \<^verbatim>\<open>Buffer\<close> of three or more
  elements, which the constructor makes from a 1-by-N weight vector, this is an error
  of Matlab: \<^verbatim>\<open>Buffer(1:end-1)\<close> is 1-by-(N-1) and cannot be concatenated under the scalar
  \<^verbatim>\<open>Input\<close> (in \<^verbatim>\<open>NLMS\<close> the sum of the N-by-1 \<^verbatim>\<open>Weights\<close> and the 1-by-N update is an
  error too, or an N-by-N matrix in releases with implicit expansion, and then the
  concatenation fails). The remaining shapes (a row of two elements, an empty vector)
  are not modelled.
\<close>

definition column_object :: "AdaptiveFir \<Rightarrow> bool" where
  "column_object AF \<longleftrightarrow>
     Buffer_size AF = (length (Buffer AF), 1) \<and> Buffer AF \<noteq> [] \<and>
     length (Weights AF) = length (Buffer AF)"

definition RunFilter :: "AdaptiveFir \<Rightarrow> double \<Rightarrow> (double \<times> AdaptiveFir) option" where
  "RunFilter AF Input =
     (let B = Input # butlast (Buffer AF) in
      if column_object AF
      then Some (inner_product (Weights AF) B, AF\<lparr>Buffer := B\<rparr>)
      else None)"

definition NLMS :: "AdaptiveFir \<Rightarrow> AdaptiveFir option" where
  "NLMS AF =
     (let epsilon = Fin (1 / 10 ^ 10);
          NormStepSize = StepSize_m AF / (epsilon + sum_list (map (\<lambda>b. b * b) (Buffer AF)))
      in case Error_m AF of
           None \<Rightarrow> None
         | Some e \<Rightarrow>
             if column_object AF
             then Some (AF\<lparr>Weights := map2 (\<lambda>w b. w + NormStepSize * e * b)
                                         (Weights AF) (Buffer AF)\<rparr>)
             else None)"

definition Run_m :: "AdaptiveFir \<Rightarrow> double \<Rightarrow> double \<Rightarrow> (double \<times> AdaptiveFir) option" where
  "Run_m AF Input Desired =
     (case RunFilter AF Input of
        None \<Rightarrow> None
      | Some (Output, AF1) \<Rightarrow>
          (case NLMS (AF1\<lparr>Error_m := Some (Desired - Output)\<rparr>) of
             None \<Rightarrow> None
           | Some AF2 \<Rightarrow> Some (Output, AF2)))"

definition RunErrorInput :: "AdaptiveFir \<Rightarrow> double \<Rightarrow> double \<Rightarrow> (double \<times> AdaptiveFir) option" where
  "RunErrorInput AF Input Err =
     (case NLMS (AF\<lparr>Error_m := Some Err\<rparr>) of
        None \<Rightarrow> None
      | Some AF1 \<Rightarrow> RunFilter AF1 Input)"

fun step_m :: "call \<Rightarrow> AdaptiveFir \<Rightarrow> (double \<times> AdaptiveFir) option" where
  "step_m (Run input desired) AF = Run_m AF input desired"
| "step_m (RunErrorIn input error) AF = RunErrorInput AF input error"

fun drive_m :: "call list \<Rightarrow> AdaptiveFir \<Rightarrow> (double list \<times> AdaptiveFir) option" where
  "drive_m [] AF = Some ([], AF)"
| "drive_m (c # cs) AF =
     (case step_m c AF of
        None \<Rightarrow> None
      | Some (output, AF1) \<Rightarrow>
          (case drive_m cs AF1 of
             None \<Rightarrow> None
           | Some (outputs, AF2) \<Rightarrow> Some (output # outputs, AF2)))"

text \<open>
  The two engines hold the same abstract state: the same weights, the same window, the
  same step size, and the regularization constant of the prototype.
\<close>

definition same_state :: "AfData \<Rightarrow> AdaptiveFir \<Rightarrow> bool" where
  "same_state s AF \<longleftrightarrow>
     Weights AF = pWeights s \<and> Buffer AF = asVector s \<and>
     Buffer_size AF = (Length s, 1) \<and>
     StepSize_m AF = StepSize s \<and> Regularization s = Fin (1 / 10 ^ 10)"

section \<open>Products and quotients in the finite range\<close>

lemma to_double_zero [simp]: "to_double 0 = Fin 0"
  by (simp add: to_double_def)

lemma to_double_small [simp]:
  assumes "1 / 1000000 \<le> \<bar>x\<bar>" "\<bar>x\<bar> \<le> 1000000"
  shows "to_double x = Fin x"
proof -
  have "(1000000::real) < 2 ^ 1024 - 2 ^ 970" by simp
  then have hi: "\<not> 2 ^ 1024 - 2 ^ 970 \<le> \<bar>x\<bar>" using assms(2) by linarith
  have "(1::real) / 2 ^ 1075 < 1 / 1000000" by simp
  then have lo: "\<not> \<bar>x\<bar> \<le> 1 / 2 ^ 1075" using assms(1) by linarith
  show ?thesis using hi lo by (simp add: to_double_def)
qed

section \<open>The loops in closed form\<close>

lemma loop_start_valid:
  assumes "1 \<le> n" "n \<le> 2 ^ 31"
  shows "loop_start n = int n - 1"
proof -
  have "n + 2 ^ 32 - 1 = (n - 1) + 2 ^ 32" using assms by simp
  then have "(n + 2 ^ 32 - 1) mod 2 ^ 32 = (n - 1) mod 2 ^ 32"
    by (metis mod_add_self2)
  also have "\<dots> = n - 1" using assms by simp
  finally have u: "(n + 2 ^ 32 - 1) mod 2 ^ 32 = n - 1" .
  have "n - 1 < 2 ^ 31" using assms by simp
  then show ?thesis
    unfolding loop_start_def Let_def u using assms by (simp add: of_nat_diff)
qed

text \<open>
  For a longer filter \<^verbatim>\<open>Length - 1\<close> does not fit the counter: it starts negative and the
  loops of \<^verbatim>\<open>Filter\<close> and \<^verbatim>\<open>AdaptWeights\<close> are not entered. This is why a valid engine
  has at most \<open>2 ^ 31\<close> taps.
\<close>

lemma loop_start_beyond:
  assumes "2 ^ 31 < n" "n < 2 ^ 32"
  shows "loop_start n < 0"
proof -
  have "n + 2 ^ 32 - 1 = (n - 1) + 2 ^ 32" using assms by simp
  then have "(n + 2 ^ 32 - 1) mod 2 ^ 32 = (n - 1) mod 2 ^ 32"
    by (metis mod_add_self2)
  also have "\<dots> = n - 1" using assms by simp
  finally have u: "(n + 2 ^ 32 - 1) mod 2 ^ 32 = n - 1" .
  have "\<not> n - 1 < 2 ^ 31" using assms by simp
  moreover have "int (n - 1) < 2 ^ 32" using assms by simp
  ultimately show ?thesis
    unfolding loop_start_def Let_def u by simp
qed

lemma foldl_sq: "foldl (\<lambda>a x. a + f x) a xs = a + sum_list (map f xs)" for a :: double
  by (induction xs arbitrary: a) (simp_all add: add.assoc)

lemma SquaredNorm_loop_eq:
  "len \<le> length xs \<Longrightarrow> i \<le> len \<Longrightarrow>
   SquaredNorm_loop i xs len out = Some (foldl (\<lambda>a x. a + x * x) out (drop i (take len xs)))"
proof (induction i xs len out rule: SquaredNorm_loop.induct)
  case (1 i pInput len out)
  show ?case
  proof (cases "i < len")
    case True
    then have d: "drop i (take len pInput) = pInput ! i # drop (Suc i) (take len pInput)"
      using "1.prems" by (simp add: Cons_nth_drop_Suc [symmetric])
    from True "1.prems" have r: "rd pInput i = Some (pInput ! i)" by (simp add: rd_def)
    show ?thesis
      using True "1.IH" [OF True r] "1.prems" by (subst SquaredNorm_loop.simps) (simp add: r d)
  next
    case False
    then show ?thesis using "1.prems" by (subst SquaredNorm_loop.simps) simp
  qed
qed


lemma slot_shift:
  assumes "c0 < L" "j < m"
  shows "((if c0 + 1 \<ge> L then 0 else c0 + 1) + m - 1 - j) mod L = (c0 + Suc m - 1 - j) mod L"
proof (cases "c0 + 1 \<ge> L")
  case True
  with assms have c: "c0 = L - 1" by simp
  have "c0 + Suc m - 1 - j = (m - 1 - j) + L" using assms c by simp
  then have "(c0 + Suc m - 1 - j) mod L = (m - 1 - j) mod L"
    by (metis mod_add_self2)
  with True show ?thesis by simp
next
  case False
  moreover have "c0 + 1 + m - 1 - j = c0 + Suc m - 1 - j" using assms by simp
  ultimately show ?thesis by simp
qed

lemma wrap_index_simps [simp]:
  "Length (wrap_index s) = Length s" "pBuffer (wrap_index s) = pBuffer s"
  "pWeights (wrap_index s) = pWeights s" "Error (wrap_index s) = Error s"
  "StepSize (wrap_index s) = StepSize s" "Regularization (wrap_index s) = Regularization s"
  by (simp_all add: wrap_index_def)

lemma wrap_index_lt: "0 < Length s \<Longrightarrow> BufferIdx (wrap_index s) < Length s"
  by (simp add: wrap_index_def)

lemma wrap_index_advance: "Suc (BufferIdx (wrap_index s)) = advance (Length s) (BufferIdx s)"
  by (simp add: wrap_index_def advance_def)

lemma AdaptWeights_loop_eq:
  assumes "length (pBuffer s) = Length s" "length (pWeights s) = Length s"
    "n \<le> Length s" "0 < Length s"
  shows "AdaptWeights_loop (int n - 1) k s =
     Some (s\<lparr>pWeights :=
               map (\<lambda>j. if j < n
                         then pWeights s ! j + k * Error s *
                              pBuffer s ! ((BufferIdx (wrap_index s) + n - 1 - j) mod Length s)
                         else pWeights s ! j) [0..<Length s],
             BufferIdx := (advance (Length s) ^^ n) (BufferIdx s)\<rparr>)"
  using assms
proof (induction n arbitrary: s)
  case 0
  have "map (\<lambda>j. pWeights s ! j) [0..<Length s] = pWeights s"
    using "0.prems" by (metis map_nth)
  then show ?case by (subst AdaptWeights_loop.simps) simp
next
  case (Suc m)
  let ?L = "Length s"
  let ?c0 = "BufferIdx (wrap_index s)"
  let ?x = "pBuffer s ! ?c0"
  let ?w = "pWeights s ! m"
  let ?s2 = "(wrap_index s)\<lparr>pWeights := (pWeights s)[m := ?w + k * Error s * ?x],
                              BufferIdx := ?c0 + 1\<rparr>"
  have c0: "?c0 < ?L" using Suc.prems by (simp add: wrap_index_lt)
  have m: "m < ?L" using Suc.prems by simp
  have r1: "rd (pBuffer s) ?c0 = Some ?x"
    using c0 Suc.prems by (simp add: rd_def)
  have r2: "rd (pWeights s) m = Some ?w"
    using m Suc.prems by (simp add: rd_def)
  have unf: "AdaptWeights_loop (int (Suc m) - 1) k s = AdaptWeights_loop (int m - 1) k ?s2"
    by (subst AdaptWeights_loop.simps) (simp add: Let_def r1 r2)
  have ih: "AdaptWeights_loop (int m - 1) k ?s2 =
     Some (?s2\<lparr>pWeights :=
               map (\<lambda>j. if j < m
                         then pWeights ?s2 ! j + k * Error ?s2 *
                              pBuffer ?s2 ! ((BufferIdx (wrap_index ?s2) + m - 1 - j) mod Length ?s2)
                         else pWeights ?s2 ! j) [0..<Length ?s2],
             BufferIdx := (advance (Length ?s2) ^^ m) (BufferIdx ?s2)\<rparr>)"
    by (rule Suc.IH) (use Suc.prems in simp_all)
  have w2: "BufferIdx (wrap_index ?s2) = (if ?c0 + 1 \<ge> ?L then 0 else ?c0 + 1)"
    by (simp add: wrap_index_def)
  have ws: "map (\<lambda>j. if j < m
                         then pWeights ?s2 ! j + k * Error ?s2 *
                              pBuffer ?s2 ! ((BufferIdx (wrap_index ?s2) + m - 1 - j) mod Length ?s2)
                         else pWeights ?s2 ! j) [0..<Length ?s2]
      = map (\<lambda>j. if j < Suc m
                         then pWeights s ! j + k * Error s *
                              pBuffer s ! ((?c0 + Suc m - 1 - j) mod ?L)
                         else pWeights s ! j) [0..<?L]"
  proof (rule map_cong [OF _ ], simp)
    fix j assume "j \<in> set [0..<?L]"
    then have j: "j < ?L" by simp
    show "(if j < m
                         then pWeights ?s2 ! j + k * Error ?s2 *
                              pBuffer ?s2 ! ((BufferIdx (wrap_index ?s2) + m - 1 - j) mod Length ?s2)
                         else pWeights ?s2 ! j)
      = (if j < Suc m
                         then pWeights s ! j + k * Error s *
                              pBuffer s ! ((?c0 + Suc m - 1 - j) mod ?L)
                         else pWeights s ! j)"
    proof (cases "j < m")
      case True
      then show ?thesis
        unfolding w2 using slot_shift [OF c0 True] by simp
    next
      case False
      show ?thesis
      proof (cases "j = m")
        case True
        then show ?thesis using c0 m Suc.prems by simp
      next
        case False
        with \<open>\<not> j < m\<close> show ?thesis by simp
      qed
    qed
  qed
  have cur: "(advance (Length ?s2) ^^ m) (BufferIdx ?s2) = (advance ?L ^^ Suc m) (BufferIdx s)"
    by (simp add: funpow_swap1 wrap_index_advance)
  show ?case
    unfolding unf ih ws cur by (simp add: wrap_index_def)
qed


lemma Filter_loop_eq:
  assumes "length (pBuffer s) = Length s" "length (pWeights s) = Length s"
    "n \<le> Length s" "0 < Length s"
  shows "Filter_loop (int n - 1) out s =
     Some (out + sum_list (map (\<lambda>j. pWeights s ! j *
                 pBuffer s ! ((BufferIdx (wrap_index s) + n - 1 - j) mod Length s)) [0..<n]),
           s\<lparr>BufferIdx := (advance (Length s) ^^ n) (BufferIdx s)\<rparr>)"
  using assms
proof (induction n arbitrary: s out)
  case 0
  show ?case by (subst Filter_loop.simps) simp
next
  case (Suc m)
  let ?L = "Length s"
  let ?c0 = "BufferIdx (wrap_index s)"
  let ?x = "pBuffer s ! ?c0"
  let ?w = "pWeights s ! m"
  let ?s2 = "(wrap_index s)\<lparr>BufferIdx := ?c0 + 1\<rparr>"
  have c0: "?c0 < ?L" using Suc.prems by (simp add: wrap_index_lt)
  have m: "m < ?L" using Suc.prems by simp
  have r1: "rd (pBuffer s) ?c0 = Some ?x"
    using c0 Suc.prems by (simp add: rd_def)
  have r2: "rd (pWeights s) m = Some ?w"
    using m Suc.prems by (simp add: rd_def)
  have unf: "Filter_loop (int (Suc m) - 1) out s = Filter_loop (int m - 1) (out + ?w * ?x) ?s2"
    by (subst Filter_loop.simps) (simp add: Let_def r1 r2)
  have ih: "Filter_loop (int m - 1) (out + ?w * ?x) ?s2 =
     Some ((out + ?w * ?x) + sum_list (map (\<lambda>j. pWeights ?s2 ! j *
                 pBuffer ?s2 ! ((BufferIdx (wrap_index ?s2) + m - 1 - j) mod Length ?s2)) [0..<m]),
           ?s2\<lparr>BufferIdx := (advance (Length ?s2) ^^ m) (BufferIdx ?s2)\<rparr>)"
    by (rule Suc.IH) (use Suc.prems in simp_all)
  have w2: "BufferIdx (wrap_index ?s2) = (if ?c0 + 1 \<ge> ?L then 0 else ?c0 + 1)"
    by (simp add: wrap_index_def)
  have ws: "map (\<lambda>j. pWeights ?s2 ! j *
                 pBuffer ?s2 ! ((BufferIdx (wrap_index ?s2) + m - 1 - j) mod Length ?s2)) [0..<m]
      = map (\<lambda>j. pWeights s ! j * pBuffer s ! ((?c0 + Suc m - 1 - j) mod ?L)) [0..<m]"
  proof (rule map_cong [OF refl])
    fix j assume "j \<in> set [0..<m]"
    then have j: "j < m" by simp
    show "pWeights ?s2 ! j *
                 pBuffer ?s2 ! ((BufferIdx (wrap_index ?s2) + m - 1 - j) mod Length ?s2)
       = pWeights s ! j * pBuffer s ! ((?c0 + Suc m - 1 - j) mod ?L)"
      unfolding w2 using slot_shift [OF c0 j] by simp
  qed
  have last: "pWeights s ! m * pBuffer s ! ((?c0 + Suc m - 1 - m) mod ?L) = ?w * ?x"
    using c0 by simp
  have cur: "(advance (Length ?s2) ^^ m) (BufferIdx ?s2) = (advance ?L ^^ Suc m) (BufferIdx s)"
    by (simp add: funpow_swap1 wrap_index_advance)
  have sum: "sum_list (map (\<lambda>j. pWeights s ! j * pBuffer s ! ((?c0 + Suc m - 1 - j) mod ?L)) [0..<Suc m])
     = sum_list (map (\<lambda>j. pWeights s ! j * pBuffer s ! ((?c0 + Suc m - 1 - j) mod ?L)) [0..<m]) + ?w * ?x"
    using last by simp
  show ?case
    unfolding unf ih ws cur sum by (simp add: wrap_index_def add.assoc add.commute)
qed


lemma advance_funpow:
  assumes "0 < L" "0 < n"
  shows "(advance L ^^ n) c = ((if c \<ge> L then 0 else c) + n - 1) mod L + 1"
  using assms(2)
proof (induction n)
  case 0
  then show ?case by simp
next
  case (Suc m)
  show ?case
  proof (cases "m = 0")
    case True
    then show ?thesis using assms(1) by (simp add: advance_def)
  next
    case False
    then have ih: "(advance L ^^ m) c = ((if c \<ge> L then 0 else c) + m - 1) mod L + 1"
      using Suc.IH by simp
    let ?a = "(if c \<ge> L then 0 else c) + m - 1"
    have lt: "?a mod L < L" using assms(1) by simp
    have "(advance L ^^ Suc m) c = advance L (?a mod L + 1)" using ih by simp
    also have "\<dots> = (if ?a mod L + 1 \<ge> L then 0 else ?a mod L + 1) + 1"
      by (simp add: advance_def)
    also have "(if ?a mod L + 1 \<ge> L then 0 else ?a mod L + 1) = (?a + 1) mod L"
      using lt by (metis Suc_eq_plus1 mod_Suc Suc_leI le_antisym)
    also have "?a + 1 = (if c \<ge> L then 0 else c) + Suc m - 1" using False by simp
    finally show ?thesis .
  qed
qed

lemma wrap_after_loop:
  assumes "0 < L"
  shows "(if (advance L ^^ L) c \<ge> L then 0 else (advance L ^^ L) c) = (if c \<ge> L then 0 else c)"
proof -
  let ?c0 = "if c \<ge> L then 0 else c"
  have c0: "?c0 < L" using assms by simp
  have a: "(advance L ^^ L) c = (?c0 + L - 1) mod L + 1"
    using advance_funpow [OF assms assms] .
  show ?thesis
  proof (cases "?c0 = 0")
    case True
    then have "(?c0 + L - 1) mod L = L - 1" using assms by simp
    then show ?thesis using a True assms by simp
  next
    case False
    then have "?c0 + L - 1 = (?c0 - 1) + L" by simp
    then have "(?c0 + L - 1) mod L = (?c0 - 1) mod L" by (metis mod_add_self2)
    also have "\<dots> = ?c0 - 1" using c0 by simp
    finally have "(advance L ^^ L) c = ?c0" using a False by simp
    then show ?thesis using c0 by (simp split: if_splits)
  qed
qed

lemma length_asVector [simp]: "length (asVector s) = Length s"
  by (simp add: asVector_def)

lemma asVector_nth:
  "j < Length s \<Longrightarrow>
   asVector s ! j = pBuffer s ! ((BufferIdx (wrap_index s) + Length s - 1 - j) mod Length s)"
  by (simp add: asVector_def)

lemma asVector_cong:
  "Length t = Length s \<Longrightarrow> pBuffer t = pBuffer s \<Longrightarrow>
   BufferIdx (wrap_index t) = BufferIdx (wrap_index s) \<Longrightarrow> asVector t = asVector s"
  by (simp add: asVector_def)

lemma asVector_rotate:
  assumes "length (pBuffer s) = Length s" "0 < Length s"
  shows "asVector s = rev (rotate (BufferIdx (wrap_index s)) (pBuffer s))"
proof (rule nth_equalityI)
  show "length (asVector s) = length (rev (rotate (BufferIdx (wrap_index s)) (pBuffer s)))"
    using assms by simp
next
  fix j assume "j < length (asVector s)"
  then have j: "j < Length s" by simp
  have "rev (rotate (BufferIdx (wrap_index s)) (pBuffer s)) ! j
      = rotate (BufferIdx (wrap_index s)) (pBuffer s) ! (Length s - Suc j)"
    using j assms by (simp add: rev_nth)
  also have "\<dots> = pBuffer s ! ((BufferIdx (wrap_index s) + (Length s - Suc j)) mod Length s)"
    using j assms by (simp add: nth_rotate)
  also have "BufferIdx (wrap_index s) + (Length s - Suc j) = BufferIdx (wrap_index s) + Length s - 1 - j"
    using j by simp
  finally show "asVector s ! j = rev (rotate (BufferIdx (wrap_index s)) (pBuffer s)) ! j"
    using j by (simp add: asVector_nth)
qed

lemma sum_list_map_mset:
  "mset xs = mset ys \<Longrightarrow> sum_list (map f xs) = sum_list (map f ys)" for f :: "'a \<Rightarrow> double"
  by (metis mset_map sum_mset_sum_list)

lemma mset_rotate_eq: "mset (rotate n xs) = mset xs"
proof -
  have "mset (drop (n mod length xs) xs @ take (n mod length xs) xs) = mset (take (n mod length xs) xs @ drop (n mod length xs) xs)"
    by (simp only: mset_append add.commute)
  then show ?thesis by (simp add: rotate_drop_take)
qed

lemma energy_asVector:
  assumes "length (pBuffer s) = Length s" "0 < Length s"
  shows "energy (asVector s) = energy (pBuffer s)"
  unfolding energy_def asVector_rotate [OF assms]
  by (rule sum_list_map_mset) (simp add: mset_rotate_eq)

lemma SquaredNorm_eq:
  "SquaredNorm xs (length xs) = Some (foldl (\<lambda>a x. a + x * x) 0 xs)"
  using SquaredNorm_loop_eq [of "length xs" xs 0 0]
  by (simp add: SquaredNorm_def del: SquaredNorm_loop.simps)

lemma foldl_energy: "foldl (\<lambda>a x. a + x * x) 0 xs = energy xs"
  by (simp add: foldl_sq energy_def)

lemma map2_index:
  "length ws = L \<Longrightarrow> map2 g ws (map f [0..<L]) = map (\<lambda>j. g (ws ! j) (f j)) [0..<L]"
  by (rule nth_equalityI) simp_all


lemma valid_engineD:
  assumes "valid_engine s"
  shows "0 < Length s" "length (pBuffer s) = Length s" "length (pWeights s) = Length s"
    "loop_start (Length s) = int (Length s) - 1"
  using assms loop_start_valid [of "Length s"] by (simp_all add: valid_engine_def)

lemma wrap_index_after_loop:
  assumes "0 < Length s" "Length t = Length s"
    "BufferIdx t = (advance (Length s) ^^ Length s) (BufferIdx s)"
  shows "BufferIdx (wrap_index t) = BufferIdx (wrap_index s)"
proof -
  have "BufferIdx (wrap_index t) = (if BufferIdx t \<ge> Length s then 0 else BufferIdx t)"
    using assms(2) by (simp add: wrap_index_def)
  also have "\<dots> = (if BufferIdx s \<ge> Length s then 0 else BufferIdx s)"
    unfolding assms(3) by (rule wrap_after_loop [OF assms(1)])
  also have "\<dots> = BufferIdx (wrap_index s)" by (simp add: wrap_index_def)
  finally show ?thesis .
qed

lemma asVector_after_loop:
  assumes "0 < Length s" "Length t = Length s" "pBuffer t = pBuffer s"
    "BufferIdx t = (advance (Length s) ^^ Length s) (BufferIdx s)"
  shows "asVector t = asVector s"
  by (rule asVector_cong [OF assms(2,3)]) (rule wrap_index_after_loop [OF assms(1,2,4)])

lemma AdaptWeights_eq:
  assumes "valid_engine s"
  shows "AdaptWeights s =
     Some (s\<lparr>pWeights := nlms_update (StepSize s) (Regularization s) (Error s)
                            (asVector s) (pWeights s),
             BufferIdx := (advance (Length s) ^^ Length s) (BufferIdx s)\<rparr>)"
proof -
  note v = valid_engineD [OF assms]
  let ?k = "StepSize s / (Regularization s + energy (asVector s))"
  have sn: "SquaredNorm (pBuffer s) (Length s) = Some (energy (asVector s))"
    using SquaredNorm_eq [of "pBuffer s"] v by (simp add: foldl_energy energy_asVector)
  have loop: "AdaptWeights_loop (int (Length s) - 1) ?k s =
     Some (s\<lparr>pWeights :=
               map (\<lambda>j. if j < Length s
                         then pWeights s ! j + ?k * Error s *
                              pBuffer s ! ((BufferIdx (wrap_index s) + Length s - 1 - j) mod Length s)
                         else pWeights s ! j) [0..<Length s],
             BufferIdx := (advance (Length s) ^^ Length s) (BufferIdx s)\<rparr>)"
    by (rule AdaptWeights_loop_eq) (use v in simp_all)
  have ws: "map (\<lambda>j. if j < Length s
                         then pWeights s ! j + ?k * Error s *
                              pBuffer s ! ((BufferIdx (wrap_index s) + Length s - 1 - j) mod Length s)
                         else pWeights s ! j) [0..<Length s]
      = nlms_update (StepSize s) (Regularization s) (Error s) (asVector s) (pWeights s)"
    unfolding nlms_update_def asVector_def
    by (subst map2_index [OF v(3)]) simp
  show ?thesis
    unfolding AdaptWeights_def sn v(4) using loop ws by simp
qed

lemma insert_sample_eq:
  assumes "valid_engine s"
  shows "insert_sample input s =
     Some (s\<lparr>pBuffer := (pBuffer s)[BufferIdx (wrap_index s) := input],
             BufferIdx := BufferIdx (wrap_index s) + 1\<rparr>)"
proof -
  note v = valid_engineD [OF assms]
  have "BufferIdx (wrap_index s) < length (pBuffer s)"
    using v by (simp add: wrap_index_lt)
  then show ?thesis
    by (simp add: insert_sample_def wr_def Let_def)
qed

lemma slot_other:
  assumes "c0 < L" "0 < j" "j < L"
  shows "(c0 + L - j) mod L \<noteq> (c0 :: nat)"
proof (cases "j \<le> c0")
  case True
  then have "c0 + L - j = (c0 - j) + L" using assms by arith
  then have "(c0 + L - j) mod L = (c0 - j) mod L" by (metis mod_add_self2)
  also have "\<dots> = c0 - j" using assms by simp
  finally show ?thesis using True assms by simp
next
  case False
  then have "c0 + L - j < L" using assms by simp
  then have "(c0 + L - j) mod L = c0 + L - j" by simp
  then show ?thesis using assms by simp
qed

lemma asVector_insert:
  assumes "0 < Length s" "length (pBuffer s) = Length s"
    "Length t = Length s"
    "pBuffer t = (pBuffer s)[BufferIdx (wrap_index s) := input]"
    "BufferIdx (wrap_index t) = (if BufferIdx (wrap_index s) + 1 \<ge> Length s then 0 else BufferIdx (wrap_index s) + 1)"
  shows "asVector t = input # butlast (asVector s)"
proof (rule nth_equalityI)
  show "length (asVector t) = length (input # butlast (asVector s))"
    using assms by simp
next
  fix j assume "j < length (asVector t)"
  then have j: "j < Length s" using assms by simp
  let ?L = "Length s"
  let ?c0 = "BufferIdx (wrap_index s)"
  have c0: "?c0 < ?L" using assms by (simp add: wrap_index_lt)
  have sh: "(BufferIdx (wrap_index t) + ?L - 1 - j) mod ?L = (?c0 + ?L - j) mod ?L"
  proof (cases "?c0 + 1 \<ge> ?L")
    case True
    with c0 have "?c0 = ?L - 1" by simp
    then have "?c0 + ?L - j = (?L - 1 - j) + ?L" using j by simp
    then have "(?c0 + ?L - j) mod ?L = (?L - 1 - j) mod ?L" by (metis mod_add_self2)
    then show ?thesis using True assms(5) by simp
  next
    case False
    then show ?thesis using assms(5) j by simp
  qed
  show "asVector t ! j = (input # butlast (asVector s)) ! j"
  proof (cases j)
    case 0
    have "(?c0 + ?L - 0) mod ?L = ?c0" using c0 by simp
    then show ?thesis
      using 0 j sh c0 assms by (simp add: asVector_nth)
  next
    case (Suc i)
    have ne: "(?c0 + ?L - j) mod ?L \<noteq> ?c0"
      by (rule slot_other [OF c0 _ j]) (simp add: Suc)
    have "asVector t ! j = pBuffer s ! ((?c0 + ?L - j) mod ?L)"
      using j sh ne assms by (simp add: asVector_nth)
    also have "?c0 + ?L - j = ?c0 + ?L - 1 - i" using Suc by simp
    also have "pBuffer s ! ((?c0 + ?L - 1 - i) mod ?L) = asVector s ! i"
      using j Suc by (simp add: asVector_nth)
    also have "\<dots> = butlast (asVector s) ! i"
      using j Suc by (simp add: nth_butlast)
    finally show ?thesis using Suc by simp
  qed
qed

lemma Filter_eq:
  assumes "valid_engine s"
  shows "Filter input s =
     Some (inner_product (pWeights s) (input # butlast (asVector s)),
           s\<lparr>pBuffer := (pBuffer s)[BufferIdx (wrap_index s) := input],
             BufferIdx := (advance (Length s) ^^ Length s) (BufferIdx (wrap_index s) + 1)\<rparr>)"
proof -
  note v = valid_engineD [OF assms]
  let ?s1 = "s\<lparr>pBuffer := (pBuffer s)[BufferIdx (wrap_index s) := input],
             BufferIdx := BufferIdx (wrap_index s) + 1\<rparr>"
  have loop: "Filter_loop (int (Length ?s1) - 1) 0 ?s1 =
     Some (0 + sum_list (map (\<lambda>j. pWeights ?s1 ! j *
                 pBuffer ?s1 ! ((BufferIdx (wrap_index ?s1) + Length ?s1 - 1 - j) mod Length ?s1))
                   [0..<Length ?s1]),
           ?s1\<lparr>BufferIdx := (advance (Length ?s1) ^^ Length ?s1) (BufferIdx ?s1)\<rparr>)"
    by (rule Filter_loop_eq) (use v in simp_all)
  have win: "asVector ?s1 = input # butlast (asVector s)"
    by (rule asVector_insert) (use v in \<open>simp_all add: wrap_index_def\<close>)
  have "sum_list (map (\<lambda>j. pWeights ?s1 ! j *
                 pBuffer ?s1 ! ((BufferIdx (wrap_index ?s1) + Length ?s1 - 1 - j) mod Length ?s1))
                   [0..<Length ?s1])
      = inner_product (pWeights s) (asVector ?s1)"
    unfolding inner_product_def asVector_def
    using map2_index [of "pWeights s" "Length s" "(*)"] v by simp
  then have out: "sum_list (map (\<lambda>j. pWeights ?s1 ! j *
                 pBuffer ?s1 ! ((BufferIdx (wrap_index ?s1) + Length ?s1 - 1 - j) mod Length ?s1))
                   [0..<Length ?s1])
      = inner_product (pWeights s) (input # butlast (asVector s))"
    using win by simp
  show ?thesis
    unfolding Filter_def insert_sample_eq [OF assms]
    using loop v(4) unfolding out by simp
qed


lemma length_nlms_update:
  "length win = length ws \<Longrightarrow> length (nlms_update mu reg err win ws) = length ws"
  by (simp add: nlms_update_def)

lemma AdaptWeights_props:
  assumes "valid_engine s"
  shows "\<exists>s1. AdaptWeights s = Some s1 \<and>
           pWeights s1 = nlms_update (StepSize s) (Regularization s) (Error s)
                           (asVector s) (pWeights s) \<and>
           asVector s1 = asVector s \<and> valid_engine s1 \<and>
           pBuffer s1 = pBuffer s \<and>
           BufferIdx s1 = (advance (Length s) ^^ Length s) (BufferIdx s) \<and>
           Length s1 = Length s \<and> StepSize s1 = StepSize s \<and>
           Regularization s1 = Regularization s \<and> Error s1 = Error s"
proof -
  note v = valid_engineD [OF assms]
  let ?s1 = "s\<lparr>pWeights := nlms_update (StepSize s) (Regularization s) (Error s)
                            (asVector s) (pWeights s),
             BufferIdx := (advance (Length s) ^^ Length s) (BufferIdx s)\<rparr>"
  have "asVector ?s1 = asVector s"
    by (rule asVector_after_loop) (use v in simp_all)
  moreover have "valid_engine ?s1"
    using assms v by (simp add: valid_engine_def length_nlms_update)
  ultimately show ?thesis
    using AdaptWeights_eq [OF assms] by simp
qed

lemma Filter_props:
  assumes "valid_engine s"
  shows "\<exists>s1. Filter input s =
             Some (inner_product (pWeights s) (input # butlast (asVector s)), s1) \<and>
           asVector s1 = input # butlast (asVector s) \<and> valid_engine s1 \<and>
           pBuffer s1 = (pBuffer s)[BufferIdx (wrap_index s) := input] \<and>
           BufferIdx s1 =
             (advance (Length s) ^^ Length s) (advance (Length s) (BufferIdx s)) \<and>
           pWeights s1 = pWeights s \<and>
           Length s1 = Length s \<and> StepSize s1 = StepSize s \<and>
           Regularization s1 = Regularization s \<and> Error s1 = Error s"
proof -
  note v = valid_engineD [OF assms]
  let ?s0 = "s\<lparr>pBuffer := (pBuffer s)[BufferIdx (wrap_index s) := input],
             BufferIdx := BufferIdx (wrap_index s) + 1\<rparr>"
  let ?s1 = "s\<lparr>pBuffer := (pBuffer s)[BufferIdx (wrap_index s) := input],
             BufferIdx := (advance (Length s) ^^ Length s) (BufferIdx (wrap_index s) + 1)\<rparr>"
  have w0: "asVector ?s0 = input # butlast (asVector s)"
    by (rule asVector_insert) (use v in \<open>simp_all add: wrap_index_def\<close>)
  have "asVector ?s1 = asVector ?s0"
    by (rule asVector_after_loop) (use v in simp_all)
  with w0 have "asVector ?s1 = input # butlast (asVector s)" by simp
  moreover have "valid_engine ?s1"
    using assms v by (simp add: valid_engine_def)
  moreover have "BufferIdx (wrap_index s) + 1 = advance (Length s) (BufferIdx s)"
    using wrap_index_advance [of s] by simp
  ultimately show ?thesis
    using Filter_eq [OF assms, of input] by simp
qed

lemma Run_props:
  assumes "valid_engine s"
  shows "\<exists>s2. AdaptiveFilterRun input desired s =
             Some (inner_product (pWeights s) (input # butlast (asVector s)), s2) \<and>
           asVector s2 = input # butlast (asVector s) \<and>
           Error s2 = desired - inner_product (pWeights s) (input # butlast (asVector s)) \<and>
           pWeights s2 = nlms_update (StepSize s) (Regularization s)
                           (desired - inner_product (pWeights s) (input # butlast (asVector s)))
                           (input # butlast (asVector s)) (pWeights s) \<and>
           valid_engine s2 \<and>
           pBuffer s2 = (pBuffer s)[BufferIdx (wrap_index s) := input] \<and>
           Length s2 = Length s \<and> StepSize s2 = StepSize s \<and>
           Regularization s2 = Regularization s"
proof -
  let ?out = "inner_product (pWeights s) (input # butlast (asVector s))"
  obtain s1 where s1: "Filter input s = Some (?out, s1)"
      "asVector s1 = input # butlast (asVector s)" "valid_engine s1"
      "pBuffer s1 = (pBuffer s)[BufferIdx (wrap_index s) := input]"
      "pWeights s1 = pWeights s" "Length s1 = Length s" "StepSize s1 = StepSize s"
      "Regularization s1 = Regularization s"
    using Filter_props [OF assms, of input] by blast
  let ?s1e = "s1\<lparr>Error := desired - ?out\<rparr>"
  have v1: "valid_engine ?s1e" using s1(3) by (simp add: valid_engine_def)
  have a1: "asVector ?s1e = asVector s1" by (rule asVector_cong) (simp_all add: wrap_index_def)
  obtain s2 where s2: "AdaptWeights ?s1e = Some s2"
      "pWeights s2 = nlms_update (StepSize ?s1e) (Regularization ?s1e) (Error ?s1e)
                           (asVector ?s1e) (pWeights ?s1e)"
      "asVector s2 = asVector ?s1e" "valid_engine s2" "pBuffer s2 = pBuffer ?s1e"
      "Length s2 = Length ?s1e" "StepSize s2 = StepSize ?s1e"
      "Regularization s2 = Regularization ?s1e" "Error s2 = Error ?s1e"
    using AdaptWeights_props [OF v1] by blast
  have "AdaptiveFilterRun input desired s = Some (?out, s2)"
    by (simp add: AdaptiveFilterRun_def s1(1) s2(1))
  then show ?thesis
    using s1 s2 a1 by simp
qed

lemma RunErrorIn_props:
  assumes "valid_engine s"
  shows "\<exists>s2. AdaptiveFilterRunErrorIn input err s =
             Some (inner_product
                     (nlms_update (StepSize s) (Regularization s) err (asVector s) (pWeights s))
                     (input # butlast (asVector s)), s2) \<and>
           asVector s2 = input # butlast (asVector s) \<and>
           Error s2 = err \<and>
           pWeights s2 = nlms_update (StepSize s) (Regularization s) err (asVector s) (pWeights s) \<and>
           valid_engine s2 \<and>
           pBuffer s2 = (pBuffer s)[BufferIdx (wrap_index s) := input] \<and>
           Length s2 = Length s \<and> StepSize s2 = StepSize s \<and>
           Regularization s2 = Regularization s"
proof -
  let ?se = "s\<lparr>Error := err\<rparr>"
  have v0: "valid_engine ?se" using assms by (simp add: valid_engine_def)
  have a0: "asVector ?se = asVector s" by (rule asVector_cong) (simp_all add: wrap_index_def)
  obtain s1 where s1: "AdaptWeights ?se = Some s1"
      "pWeights s1 = nlms_update (StepSize ?se) (Regularization ?se) (Error ?se)
                           (asVector ?se) (pWeights ?se)"
      "asVector s1 = asVector ?se" "valid_engine s1" "pBuffer s1 = pBuffer ?se"
      "BufferIdx s1 = (advance (Length ?se) ^^ Length ?se) (BufferIdx ?se)"
      "Length s1 = Length ?se" "StepSize s1 = StepSize ?se"
      "Regularization s1 = Regularization ?se" "Error s1 = Error ?se"
    using AdaptWeights_props [OF v0] by blast
  have w: "BufferIdx (wrap_index s1) = BufferIdx (wrap_index s)"
    by (rule wrap_index_after_loop) (use valid_engineD(1) [OF assms] s1(6,7) in simp_all)
  obtain s2 where s2: "Filter input s1 =
             Some (inner_product (pWeights s1) (input # butlast (asVector s1)), s2)"
      "asVector s2 = input # butlast (asVector s1)" "valid_engine s2"
      "pBuffer s2 = (pBuffer s1)[BufferIdx (wrap_index s1) := input]"
      "pWeights s2 = pWeights s1" "Length s2 = Length s1" "StepSize s2 = StepSize s1"
      "Regularization s2 = Regularization s1" "Error s2 = Error s1"
    using Filter_props [OF s1(4), of input] by blast
  have "AdaptiveFilterRunErrorIn input err s =
          Some (inner_product (pWeights s1) (input # butlast (asVector s1)), s2)"
    by (simp add: AdaptiveFilterRunErrorIn_def s1(1) s2(1))
  then show ?thesis
    using s1 s2 a0 w by simp
qed

section \<open>The claims\<close>

text \<open>
  C1. On a valid engine, \<^verbatim>\<open>AdaptiveFilterRun\<close> first inserts the input into the history
  (the window becomes the input followed by the old window without its oldest sample),
  returns the inner product of the weights it was called with and that new window
  (weight \<open>i\<close> with the sample \<open>i\<close> steps old), stores \<open>desired - output\<close> as the error,
  and only then updates the weights by NLMS with that error and that same window.
\<close>

theorem Run_filter_then_adapt:
  assumes "valid_engine s"
  shows "\<exists>s'. AdaptiveFilterRun input desired s =
              Some (inner_product (pWeights s) (input # butlast (asVector s)), s') \<and>
            asVector s' = input # butlast (asVector s) \<and>
            Error s' = desired - inner_product (pWeights s) (input # butlast (asVector s)) \<and>
            pWeights s' =
              nlms_update (StepSize s) (Regularization s) (Error s')
                (input # butlast (asVector s)) (pWeights s)"
proof -
  obtain s2 where "AdaptiveFilterRun input desired s =
             Some (inner_product (pWeights s) (input # butlast (asVector s)), s2)"
      "asVector s2 = input # butlast (asVector s)"
      "Error s2 = desired - inner_product (pWeights s) (input # butlast (asVector s))"
      "pWeights s2 = nlms_update (StepSize s) (Regularization s)
                           (desired - inner_product (pWeights s) (input # butlast (asVector s)))
                           (input # butlast (asVector s)) (pWeights s)"
    using Run_props [OF assms, of input desired] by blast
  then show ?thesis by simp
qed



theorem Run_filter_then_adapt_witness:
  "valid_engine \<lparr>StepSize = Fin 1, Regularization = Fin 1, Length = 2,
         pBuffer = [Fin 1, Fin 2], BufferIdx = 2, pWeights = [Fin 1, Fin 1], Error = Fin 0\<rparr> \<and>
   (\<exists>s'. AdaptiveFilterRun (Fin 3) (Fin 6)
            \<lparr>StepSize = Fin 1, Regularization = Fin 1, Length = 2,
             pBuffer = [Fin 1, Fin 2], BufferIdx = 2, pWeights = [Fin 1, Fin 1], Error = Fin 0\<rparr>
           = Some (Fin 5, s') \<and>
         asVector s' = [Fin 3, Fin 2] \<and> Error s' = Fin 1 \<and>
         pWeights s' = [Fin (17 / 14), Fin (8 / 7)])"
proof -
  let ?s = "\<lparr>StepSize = Fin 1, Regularization = Fin 1, Length = 2,
         pBuffer = [Fin 1, Fin 2], BufferIdx = 2, pWeights = [Fin 1, Fin 1], Error = Fin 0\<rparr>"
  have v: "valid_engine ?s" by (simp add: valid_engine_def)
  have a: "asVector ?s = [Fin 2, Fin 1]"
    by (simp add: asVector_def wrap_index_def upt_conv_Cons)
  have out: "inner_product [Fin 1, Fin 1] [Fin 3, Fin 2] = Fin 5"
    by (simp add: inner_product_def zero_double_def)
  have e: "Fin 6 - Fin 5 = Fin 1" by (simp add: minus_double_def)
  have upd: "nlms_update (Fin 1) (Fin 1) (Fin 1) [Fin 3, Fin 2] [Fin 1, Fin 1]
      = [Fin (17 / 14), Fin (8 / 7)]"
    by (simp add: nlms_update_def energy_def zero_double_def)
  show ?thesis
    using v Run_filter_then_adapt [OF v, of "Fin 3" "Fin 6"]
    by (auto simp: a out e upd)
qed

text \<open>
  C2. On a valid engine, \<^verbatim>\<open>AdaptiveFilterRunErrorIn\<close> first stores the error it is given and
  updates the weights by NLMS with that error and the window as it was before the input
  is inserted; only then it inserts the input, and returns the inner product of the
  updated weights and the new window: adapt, then filter.
\<close>

theorem RunErrorIn_adapt_then_filter:
  assumes "valid_engine s"
  shows "\<exists>s'. AdaptiveFilterRunErrorIn input err s =
              Some (inner_product (pWeights s') (input # butlast (asVector s)), s') \<and>
            Error s' = err \<and>
            pWeights s' =
              nlms_update (StepSize s) (Regularization s) err (asVector s) (pWeights s) \<and>
            asVector s' = input # butlast (asVector s)"
proof -
  obtain s2 where "AdaptiveFilterRunErrorIn input err s =
             Some (inner_product
                     (nlms_update (StepSize s) (Regularization s) err (asVector s) (pWeights s))
                     (input # butlast (asVector s)), s2)"
      "asVector s2 = input # butlast (asVector s)" "Error s2 = err"
      "pWeights s2 = nlms_update (StepSize s) (Regularization s) err (asVector s) (pWeights s)"
    using RunErrorIn_props [OF assms, of input err] by blast
  then show ?thesis by simp
qed

theorem RunErrorIn_adapt_then_filter_witness:
  "valid_engine \<lparr>StepSize = Fin 1, Regularization = Fin 1, Length = 2,
         pBuffer = [Fin 1, Fin 2], BufferIdx = 2, pWeights = [Fin 1, Fin 1], Error = Fin 0\<rparr> \<and>
   (\<exists>s'. AdaptiveFilterRunErrorIn (Fin 3) (Fin 6)
            \<lparr>StepSize = Fin 1, Regularization = Fin 1, Length = 2,
             pBuffer = [Fin 1, Fin 2], BufferIdx = 2, pWeights = [Fin 1, Fin 1], Error = Fin 0\<rparr>
           = Some (Fin 13, s') \<and>
         Error s' = Fin 6 \<and> pWeights s' = [Fin 3, Fin 2] \<and>
         asVector s' = [Fin 3, Fin 2])"
proof -
  let ?s = "\<lparr>StepSize = Fin 1, Regularization = Fin 1, Length = 2,
         pBuffer = [Fin 1, Fin 2], BufferIdx = 2, pWeights = [Fin 1, Fin 1], Error = Fin 0\<rparr>"
  have v: "valid_engine ?s" by (simp add: valid_engine_def)
  have a: "asVector ?s = [Fin 2, Fin 1]"
    by (simp add: asVector_def wrap_index_def upt_conv_Cons)
  have upd: "nlms_update (Fin 1) (Fin 1) (Fin 6) [Fin 2, Fin 1] [Fin 1, Fin 1]
      = [Fin 3, Fin 2]"
    by (simp add: nlms_update_def energy_def zero_double_def)
  have out: "inner_product [Fin 3, Fin 2] [Fin 3, Fin 2] = Fin 13"
    by (simp add: inner_product_def zero_double_def)
  show ?thesis
    using v RunErrorIn_adapt_then_filter [OF v, of "Fin 3" "Fin 6"]
    by (auto simp: a out upd)
qed


text \<open>
  C3. The weight update shared by both entry points: the energy is the left-to-right sum of
  the squares of the \<open>Length\<close> buffered samples (which is the energy of the window), and
  every weight \<open>i\<close> becomes
  \<open>weights[i] + stepSize / (regularization + energy) * lastError * window[i]\<close>; the
  regularization is an addend of the denominator and nothing else, and the update
  changes neither the buffer nor the error nor the parameters.
\<close>

theorem AdaptWeights_nlms:
  assumes "valid_engine s"
  shows "\<exists>s'. AdaptWeights s = Some s' \<and>
            SquaredNorm (pBuffer s) (Length s) =
              Some (foldl (\<lambda>acc x. acc + x * x) 0 (pBuffer s)) \<and>
            foldl (\<lambda>acc x. acc + x * x) 0 (pBuffer s) = energy (asVector s) \<and>
            pWeights s' =
              map2 (\<lambda>w x. w + StepSize s /
                               (Regularization s + foldl (\<lambda>acc x. acc + x * x) 0 (pBuffer s)) *
                             Error s * x)
                (pWeights s) (asVector s) \<and>
            length (pWeights s') = Length s \<and> pBuffer s' = pBuffer s \<and>
            Error s' = Error s \<and> StepSize s' = StepSize s \<and>
            Regularization s' = Regularization s \<and> Length s' = Length s"
proof -
  note v = valid_engineD [OF assms]
  obtain s1 where s1: "AdaptWeights s = Some s1"
      "pWeights s1 = nlms_update (StepSize s) (Regularization s) (Error s)
                           (asVector s) (pWeights s)"
      "valid_engine s1" "pBuffer s1 = pBuffer s" "Length s1 = Length s"
      "StepSize s1 = StepSize s" "Regularization s1 = Regularization s" "Error s1 = Error s"
    using AdaptWeights_props [OF assms] by blast
  have sn: "SquaredNorm (pBuffer s) (Length s) =
              Some (foldl (\<lambda>acc x. acc + x * x) 0 (pBuffer s))"
    using SquaredNorm_eq [of "pBuffer s"] v by simp
  have en: "foldl (\<lambda>acc x. acc + x * x) 0 (pBuffer s) = energy (asVector s)"
    using v by (simp add: foldl_energy energy_asVector)
  have len: "length (pWeights s1) = Length s"
    using s1(3,5) by (simp add: valid_engine_def)
  show ?thesis
    using s1 sn len unfolding en nlms_update_def by simp
qed

theorem AdaptWeights_nlms_witness:
  "valid_engine \<lparr>StepSize = Fin 1, Regularization = Fin 1, Length = 2,
         pBuffer = [Fin 1, Fin 2], BufferIdx = 2, pWeights = [Fin 1, Fin 1], Error = Fin 6\<rparr> \<and>
   (\<exists>s'. AdaptWeights
            \<lparr>StepSize = Fin 1, Regularization = Fin 1, Length = 2,
             pBuffer = [Fin 1, Fin 2], BufferIdx = 2, pWeights = [Fin 1, Fin 1], Error = Fin 6\<rparr>
           = Some s' \<and>
         SquaredNorm [Fin 1, Fin 2] 2 = Some (Fin 5) \<and>
         pWeights s' = [Fin 3, Fin 2] \<and> pBuffer s' = [Fin 1, Fin 2])"
proof -
  let ?s = "\<lparr>StepSize = Fin 1, Regularization = Fin 1, Length = 2,
         pBuffer = [Fin 1, Fin 2], BufferIdx = 2, pWeights = [Fin 1, Fin 1], Error = Fin 6\<rparr>"
  have v: "valid_engine ?s" by (simp add: valid_engine_def)
  have a: "asVector ?s = [Fin 2, Fin 1]"
    by (simp add: asVector_def wrap_index_def upt_conv_Cons)
  show ?thesis
    using v AdaptWeights_nlms [OF v]
    by (auto simp: a zero_double_def)
qed

lemma cursor_congruent:
  assumes "0 < L" "c \<le> L"
  shows "(advance L ^^ L) c mod L = c mod L"
proof -
  let ?c0 = "if c \<ge> L then 0 else c"
  have w: "(if (advance L ^^ L) c \<ge> L then 0 else (advance L ^^ L) c) = ?c0"
    by (rule wrap_after_loop [OF assms(1)])
  have le: "(advance L ^^ L) c \<le> L"
    using advance_funpow [OF assms(1) assms(1), of c] assms(1)
    by (simp add: Suc_leI)
  have "(advance L ^^ L) c mod L = (if (advance L ^^ L) c \<ge> L then 0 else (advance L ^^ L) c)"
    using le by (cases "(advance L ^^ L) c = L") simp_all
  also have "\<dots> = ?c0" by (rule w)
  also have "\<dots> = c mod L" using assms(2) by (cases "c = L") simp_all
  finally show ?thesis .
qed

lemma wrap_index_mod:
  "BufferIdx s \<le> Length s \<Longrightarrow> BufferIdx (wrap_index s) = BufferIdx s mod Length s"
  by (cases "BufferIdx s = Length s") (simp_all add: wrap_index_def)

lemma last_asVector:
  assumes "0 < Length s"
  shows "last (asVector s) = pBuffer s ! BufferIdx (wrap_index s)"
proof -
  have ne: "asVector s \<noteq> []" using assms by (metis length_asVector length_greater_0_conv)
  have "last (asVector s) = asVector s ! (Length s - 1)"
    using ne by (simp add: last_conv_nth)
  also have "\<dots> = pBuffer s ! ((BufferIdx (wrap_index s) + Length s - 1 - (Length s - 1)) mod Length s)"
    using assms by (simp add: asVector_nth)
  also have "BufferIdx (wrap_index s) + Length s - 1 - (Length s - 1) = BufferIdx (wrap_index s)"
    using assms by simp
  also have "BufferIdx (wrap_index s) mod Length s = BufferIdx (wrap_index s)"
    using wrap_index_lt [OF assms] by simp
  finally show ?thesis .
qed

text \<open>
  C10. With at least one tap and the cursor at most \<open>Length\<close>, the weight update leaves the
  sample buffer as it is, advances the cursor \<open>Length\<close> times with wrap-around and
  leaves it congruent modulo \<open>Length\<close> to its entry value, so the window is the same
  afterwards; a call of either entry point writes one slot of the buffer, the one that
  held the oldest sample, and leaves the others as they were.
\<close>

theorem weight_update_frame:
  assumes "valid_engine s" "BufferIdx s \<le> Length s"
  shows "(\<exists>s'. AdaptWeights s = Some s' \<and> pBuffer s' = pBuffer s \<and>
            BufferIdx s' = (advance (Length s) ^^ Length s) (BufferIdx s) \<and>
            BufferIdx s' mod Length s = BufferIdx s mod Length s \<and>
            asVector s' = asVector s) \<and>
         (\<exists>out s'. AdaptiveFilterRun input desired s = Some (out, s') \<and>
            pBuffer s' = (pBuffer s)[BufferIdx s mod Length s := input]) \<and>
         (\<exists>out s'. AdaptiveFilterRunErrorIn input err s = Some (out, s') \<and>
            pBuffer s' = (pBuffer s)[BufferIdx s mod Length s := input]) \<and>
         pBuffer s ! (BufferIdx s mod Length s) = last (asVector s)"
proof -
  note v = valid_engineD [OF assms(1)]
  note m = wrap_index_mod [OF assms(2)]
  obtain s1 where s1: "AdaptWeights s = Some s1" "pBuffer s1 = pBuffer s"
      "BufferIdx s1 = (advance (Length s) ^^ Length s) (BufferIdx s)" "asVector s1 = asVector s"
    using AdaptWeights_props [OF assms(1)] by blast
  have c: "BufferIdx s1 mod Length s = BufferIdx s mod Length s"
    unfolding s1(3) by (rule cursor_congruent [OF v(1) assms(2)])
  obtain s2 where s2: "AdaptiveFilterRun input desired s =
             Some (inner_product (pWeights s) (input # butlast (asVector s)), s2)"
      "pBuffer s2 = (pBuffer s)[BufferIdx (wrap_index s) := input]"
    using Run_props [OF assms(1), of input desired] by blast
  obtain s3 where s3: "AdaptiveFilterRunErrorIn input err s =
             Some (inner_product
                     (nlms_update (StepSize s) (Regularization s) err (asVector s) (pWeights s))
                     (input # butlast (asVector s)), s3)"
      "pBuffer s3 = (pBuffer s)[BufferIdx (wrap_index s) := input]"
    using RunErrorIn_props [OF assms(1), of input err] by blast
  have l: "pBuffer s ! (BufferIdx s mod Length s) = last (asVector s)"
    using last_asVector [OF v(1)] m by simp
  show ?thesis
    using s1 c s2 s3 l unfolding m by simp
qed

theorem weight_update_frame_witness:
  "valid_engine \<lparr>StepSize = Fin 1, Regularization = Fin 1, Length = 2,
         pBuffer = [Fin 1, Fin 2], BufferIdx = 2, pWeights = [Fin 1, Fin 1], Error = Fin 6\<rparr> \<and>
   (2::nat) \<le> 2 \<and>
   (\<exists>s'. AdaptWeights
            \<lparr>StepSize = Fin 1, Regularization = Fin 1, Length = 2,
             pBuffer = [Fin 1, Fin 2], BufferIdx = 2, pWeights = [Fin 1, Fin 1], Error = Fin 6\<rparr>
           = Some s' \<and> pBuffer s' = [Fin 1, Fin 2] \<and> BufferIdx s' = 2 \<and>
           asVector s' = [Fin 2, Fin 1]) \<and>
   (\<exists>out s'. AdaptiveFilterRun (Fin 3) (Fin 6)
            \<lparr>StepSize = Fin 1, Regularization = Fin 1, Length = 2,
             pBuffer = [Fin 1, Fin 2], BufferIdx = 2, pWeights = [Fin 1, Fin 1], Error = Fin 6\<rparr>
           = Some (out, s') \<and> pBuffer s' = [Fin 3, Fin 2]) \<and>
   (\<exists>out s'. AdaptiveFilterRunErrorIn (Fin 3) (Fin 6)
            \<lparr>StepSize = Fin 1, Regularization = Fin 1, Length = 2,
             pBuffer = [Fin 1, Fin 2], BufferIdx = 2, pWeights = [Fin 1, Fin 1], Error = Fin 6\<rparr>
           = Some (out, s') \<and> pBuffer s' = [Fin 3, Fin 2])"
proof -
  let ?s = "\<lparr>StepSize = Fin 1, Regularization = Fin 1, Length = 2,
         pBuffer = [Fin 1, Fin 2], BufferIdx = 2, pWeights = [Fin 1, Fin 1], Error = Fin 6\<rparr>"
  have v: "valid_engine ?s" by (simp add: valid_engine_def)
  have a: "asVector ?s = [Fin 2, Fin 1]"
    by (simp add: asVector_def wrap_index_def upt_conv_Cons)
  have adv: "(advance 2 ^^ 2) 2 = 2"
    by (simp add: advance_def numeral_2_eq_2)
  show ?thesis
    using v weight_update_frame [OF v, of "Fin 3" "Fin 6" "Fin 6"]
    by (auto simp: a adv)
qed

lemma step_props:
  assumes "valid_engine s"
  shows "\<exists>out s'. step c s = Some (out, s') \<and> valid_engine s' \<and>
           asVector s' = input_of c # butlast (asVector s) \<and> Length s' = Length s \<and>
           StepSize s' = StepSize s \<and> Regularization s' = Regularization s"
proof (cases c)
  case (Run input desired)
  then show ?thesis using Run_props [OF assms, of input desired] by auto
next
  case (RunErrorIn input err)
  then show ?thesis using RunErrorIn_props [OF assms, of input err] by auto
qed

lemma take_shifted_window:
  assumes "length w = L" "0 < L"
  shows "take L (A @ x # butlast w) = take L (A @ x # w)"
proof (cases "L \<le> length A")
  case True
  then show ?thesis by simp
next
  case False
  then obtain k where k: "L - length A = Suc k" by (metis Suc_diff_Suc not_le diff_zero not0_implies_Suc zero_less_diff)
  then have "k < length w" using assms by simp
  then have "take k (butlast w) = take k w" by (simp add: take_butlast)
  then show ?thesis using k by simp
qed

lemma drive_window:
  assumes "valid_engine s"
  shows "\<exists>outs s'. drive cs s = Some (outs, s') \<and> valid_engine s' \<and>
           Length s' = Length s \<and> length outs = length cs \<and>
           asVector s' = take (Length s) (rev (map input_of cs) @ asVector s)"
  using assms
proof (induction cs arbitrary: s)
  case Nil
  then show ?case by simp
next
  case (Cons c cs)
  obtain out s1 where s1: "step c s = Some (out, s1)" "valid_engine s1"
      "asVector s1 = input_of c # butlast (asVector s)" "Length s1 = Length s"
    using step_props [OF Cons.prems, of c] by blast
  obtain outs s2 where s2: "drive cs s1 = Some (outs, s2)" "valid_engine s2"
      "Length s2 = Length s1" "length outs = length cs"
      "asVector s2 = take (Length s1) (rev (map input_of cs) @ asVector s1)"
    using Cons.IH [OF s1(2)] by blast
  have "take (Length s) (rev (map input_of cs) @ input_of c # butlast (asVector s))
      = take (Length s) (rev (map input_of cs) @ input_of c # asVector s)"
    by (rule take_shifted_window) (use valid_engineD(1) [OF Cons.prems] in simp_all)
  then have "asVector s2 = take (Length s) (rev (map input_of (c # cs)) @ asVector s)"
    using s2(5) s1(3,4) by simp
  then show ?case using s1 s2 by simp
qed

lemma asVector_zero:
  assumes "0 < Length s" "pBuffer s = replicate (Length s) 0"
  shows "asVector s = replicate (Length s) 0"
  by (rule nth_equalityI) (use assms in \<open>simp_all add: asVector_nth\<close>)

text \<open>
  C4. For every capacity and every sequence of calls, the window after the calls holds the
  most recent \<open>Length\<close> inputs, newest first, followed by what is left of the window
  the engine started with: zeros when the buffer was initialised to zero, and nothing
  once at least \<open>Length\<close> values were inserted. Every prefix of a sequence of calls is
  a sequence of calls, so this holds after every insertion.
\<close>

theorem history_window:
  assumes "valid_engine s"
  shows "\<exists>outs s'. drive cs s = Some (outs, s') \<and>
           asVector s' = take (Length s) (rev (map input_of cs) @ asVector s) \<and>
           (pBuffer s = replicate (Length s) 0 \<longrightarrow>
              asVector s' = take (Length s) (rev (map input_of cs) @ replicate (Length s) 0)) \<and>
           (Length s \<le> length cs \<longrightarrow>
              asVector s' = take (Length s) (rev (map input_of cs)))"
proof -
  obtain outs s' where d: "drive cs s = Some (outs, s')"
      "asVector s' = take (Length s) (rev (map input_of cs) @ asVector s)"
    using drive_window [OF assms, of cs] by blast
  have z: "pBuffer s = replicate (Length s) 0 \<Longrightarrow>
      asVector s' = take (Length s) (rev (map input_of cs) @ replicate (Length s) 0)"
    using d(2) asVector_zero [OF valid_engineD(1) [OF assms]] by simp
  have f: "Length s \<le> length cs \<Longrightarrow> asVector s' = take (Length s) (rev (map input_of cs))"
    using d(2) by simp
  show ?thesis using d z f by blast
qed

theorem history_window_witness:
  "valid_engine \<lparr>StepSize = Fin 1, Regularization = Fin 1, Length = 2,
         pBuffer = replicate 2 0, BufferIdx = 0, pWeights = [Fin 1, Fin 1], Error = Fin 0\<rparr> \<and>
   pBuffer \<lparr>StepSize = Fin 1, Regularization = Fin 1, Length = 2,
         pBuffer = replicate 2 0, BufferIdx = 0, pWeights = [Fin 1, Fin 1], Error = Fin 0\<rparr>
     = replicate 2 0 \<and>
   (2::nat) \<le> length [Run (Fin 3) (Fin 6), RunErrorIn (Fin 4) (Fin 0), Run (Fin 5) (Fin 1)] \<and>
   (\<exists>outs s'. drive [Run (Fin 3) (Fin 6), RunErrorIn (Fin 4) (Fin 0), Run (Fin 5) (Fin 1)]
            \<lparr>StepSize = Fin 1, Regularization = Fin 1, Length = 2,
             pBuffer = replicate 2 0, BufferIdx = 0, pWeights = [Fin 1, Fin 1], Error = Fin 0\<rparr>
           = Some (outs, s') \<and> asVector s' = [Fin 5, Fin 4])"
proof -
  let ?s = "\<lparr>StepSize = Fin 1, Regularization = Fin 1, Length = 2,
         pBuffer = replicate 2 0, BufferIdx = 0, pWeights = [Fin 1, Fin 1], Error = Fin 0\<rparr>"
  have v: "valid_engine ?s" by (simp add: valid_engine_def)
  show ?thesis
    using v history_window [OF v, of "[Run (Fin 3) (Fin 6), RunErrorIn (Fin 4) (Fin 0), Run (Fin 5) (Fin 1)]"]
    by auto
qed

lemma energy_zero: "energy (replicate n 0) = 0"
  by (induction n) (simp_all add: energy_def zero_double_def)

lemma finite_times_zero: "is_finite a \<Longrightarrow> a * 0 = 0"
  by (cases a) (simp_all add: zero_double_def)

lemma inner_product_zero:
  "list_all is_finite ws \<Longrightarrow> inner_product ws (replicate n 0) = 0"
proof (induction ws arbitrary: n)
  case Nil
  then show ?case by (simp add: inner_product_def)
next
  case (Cons w ws)
  show ?case
  proof (cases n)
    case 0
    then show ?thesis by (simp add: inner_product_def)
  next
    case (Suc m)
    have "inner_product ws (replicate m 0) = 0" using Cons by simp
    then show ?thesis
      using Cons.prems Suc by (simp add: inner_product_def finite_times_zero)
  qed
qed

lemma map2_replicate_id:
  "length ws = n \<Longrightarrow> (\<And>w. f w c = w) \<Longrightarrow> map2 f ws (replicate n c) = ws"
  by (rule nth_equalityI) simp_all

lemma nlms_update_zero:
  assumes "is_finite (mu / reg * err)" "length ws = n"
  shows "nlms_update mu reg err (replicate n 0) ws = ws"
  unfolding nlms_update_def energy_zero
  by (intro map2_replicate_id [OF assms(2)]) (simp add: finite_times_zero [OF assms(1)])

lemma zero_window_shift: "0 < n \<Longrightarrow> 0 # butlast (replicate n 0) = replicate n (0::double)"
  by (rule nth_equalityI) (auto simp: nth_Cons nth_butlast split: nat.splits)

lemma minus_zero_double [simp]: "d - 0 = (d::double)"
proof -
  have "- (0::double) = 0" by (simp add: zero_double_def)
  then show ?thesis by (simp add: minus_double_def)
qed

lemma step_zero_signal:
  assumes "valid_engine s" "asVector s = replicate (Length s) 0"
    "list_all is_finite (pWeights s)" "input_of c = 0"
    "is_finite (StepSize s / Regularization s * reference_of c)"
  shows "\<exists>out s'. step c s = Some (out, s') \<and> valid_engine s' \<and>
           asVector s' = replicate (Length s') 0 \<and> pWeights s' = pWeights s \<and>
           StepSize s' = StepSize s \<and> Regularization s' = Regularization s \<and>
           Length s' = Length s"
proof -
  note v = valid_engineD [OF assms(1)]
  have win: "0 # butlast (replicate (Length s) 0) = replicate (Length s) (0::double)"
    by (rule zero_window_shift [OF v(1)])
  show ?thesis
  proof (cases c)
    case (Run input desired)
    then have i: "input = 0"
      and d: "is_finite (StepSize s / Regularization s * desired)"
      using assms(4,5) by simp_all
    have out: "inner_product (pWeights s) (replicate (Length s) 0) = 0"
      by (rule inner_product_zero [OF assms(3)])
    have upd: "nlms_update (StepSize s) (Regularization s) desired
                 (replicate (Length s) 0) (pWeights s) = pWeights s"
      by (rule nlms_update_zero [OF d v(3)])
    show ?thesis
      using Run_props [OF assms(1), of input desired] Run
      unfolding i assms(2) win out minus_zero_double upd by auto
  next
    case (RunErrorIn input err)
    then have i: "input = 0"
      and e: "is_finite (StepSize s / Regularization s * err)"
      using assms(4,5) by simp_all
    have upd: "nlms_update (StepSize s) (Regularization s) err
                 (replicate (Length s) 0) (pWeights s) = pWeights s"
      by (rule nlms_update_zero [OF e v(3)])
    show ?thesis
      using RunErrorIn_props [OF assms(1), of input err] RunErrorIn
      unfolding i assms(2) win upd by auto
  qed
qed

lemma drive_zero_signal:
  assumes "valid_engine s" "asVector s = replicate (Length s) 0"
    "list_all is_finite (pWeights s)"
    "list_all (\<lambda>c. input_of c = 0 \<and>
                    is_finite (StepSize s / Regularization s * reference_of c)) cs"
  shows "\<exists>outs s'. drive cs s = Some (outs, s') \<and> pWeights s' = pWeights s"
  using assms
proof (induction cs arbitrary: s)
  case Nil
  then show ?case by simp
next
  case (Cons c cs)
  from Cons.prems(4) have c: "input_of c = 0"
      "is_finite (StepSize s / Regularization s * reference_of c)"
    and cs: "list_all (\<lambda>c. input_of c = 0 \<and>
                    is_finite (StepSize s / Regularization s * reference_of c)) cs"
    by simp_all
  obtain out s1 where s1: "step c s = Some (out, s1)" "valid_engine s1"
      "asVector s1 = replicate (Length s1) 0" "pWeights s1 = pWeights s"
      "StepSize s1 = StepSize s" "Regularization s1 = Regularization s"
    using step_zero_signal [OF Cons.prems(1-3) c] by blast
  have w1: "list_all is_finite (pWeights s1)" using s1(4) Cons.prems(3) by simp
  have cs1: "list_all (\<lambda>c. input_of c = 0 \<and>
                    is_finite (StepSize s1 / Regularization s1 * reference_of c)) cs"
    using cs s1(5,6) by simp
  obtain outs s2 where s2: "drive cs s1 = Some (outs, s2)" "pWeights s2 = pWeights s1"
    using Cons.IH [OF s1(2,3) w1 cs1] by blast
  show ?case using s1 s2 by simp
qed

lemma bounded_by_finite: "bounded_by b x \<Longrightarrow> is_finite x"
  by (cases x) simp_all

text \<open>
  C7, as the code has it. From a zero buffer and with finite weights, a sequence of calls
  whose inputs are all 0 never changes a weight, as long as for every call the step size
  divided by the regularization and multiplied by the desired or error sample is finite
  and at most \<open>2 ^ 1023\<close> in magnitude: the regularization is not zero, and neither the
  quotient nor the product overflows. The bound is half of what overflows, so that the
  rounding of the quotient, which the model leaves out, cannot make the product overflow
  either.
\<close>

theorem zero_signal_keeps_weights:
  assumes "valid_engine s" "pBuffer s = replicate (Length s) 0"
    "list_all is_finite (pWeights s)"
    "list_all (\<lambda>c. input_of c = 0 \<and>
                    bounded_by (2 ^ 1023) (StepSize s / Regularization s * reference_of c)) cs"
  shows "\<exists>outs s'. drive cs s = Some (outs, s') \<and> pWeights s' = pWeights s"
proof -
  have z: "asVector s = replicate (Length s) 0"
    by (rule asVector_zero [OF valid_engineD(1) [OF assms(1)] assms(2)])
  have "list_all (\<lambda>c. input_of c = 0 \<and>
                    is_finite (StepSize s / Regularization s * reference_of c)) cs"
    using assms(4) unfolding list_all_iff by (auto intro: bounded_by_finite)
  then show ?thesis
    using drive_zero_signal [OF assms(1) z assms(3)] by blast
qed

theorem zero_signal_keeps_weights_witness:
  "valid_engine \<lparr>StepSize = Fin (3 / 10), Regularization = Fin (1 / 10 ^ 10), Length = 2,
         pBuffer = replicate 2 0, BufferIdx = 0, pWeights = [Fin 1, Fin 2], Error = Fin 0\<rparr> \<and>
   list_all is_finite [Fin 1, Fin 2] \<and>
   Fin (3 / 10) / Fin (1 / 10 ^ 10) * Fin 5 = Fin 15000000000 \<and>
   bounded_by (2 ^ 1023) (Fin 15000000000) \<and>
   Fin (3 / 10) / Fin (1 / 10 ^ 10) * Fin 7 = Fin 21000000000 \<and>
   bounded_by (2 ^ 1023) (Fin 21000000000) \<and>
   (\<exists>outs s'. drive [Run 0 (Fin 5), RunErrorIn 0 (Fin 7)]
            \<lparr>StepSize = Fin (3 / 10), Regularization = Fin (1 / 10 ^ 10), Length = 2,
             pBuffer = replicate 2 0, BufferIdx = 0, pWeights = [Fin 1, Fin 2], Error = Fin 0\<rparr>
           = Some (outs, s') \<and> pWeights s' = [Fin 1, Fin 2])"
proof -
  let ?s = "\<lparr>StepSize = Fin (3 / 10), Regularization = Fin (1 / 10 ^ 10), Length = 2,
         pBuffer = replicate 2 0, BufferIdx = 0, pWeights = [Fin 1, Fin 2], Error = Fin 0\<rparr>"
  have v: "valid_engine ?s" by (simp add: valid_engine_def)
  have p5: "Fin (3 / 10) / Fin (1 / 10 ^ 10) * Fin 5 = Fin 15000000000"
    by (simp add: to_double_def)
  have p7: "Fin (3 / 10) / Fin (1 / 10 ^ 10) * Fin 7 = Fin 21000000000"
    by (simp add: to_double_def)
  have b: "bounded_by (2 ^ 1023) (Fin 15000000000)" "bounded_by (2 ^ 1023) (Fin 21000000000)"
    by simp_all
  have "\<exists>outs s'. drive [Run 0 (Fin 5), RunErrorIn 0 (Fin 7)] ?s = Some (outs, s') \<and>
      pWeights s' = pWeights ?s"
    by (rule zero_signal_keeps_weights [OF v]) (simp_all add: to_double_def)
  then show ?thesis using v p5 p7 b by simp
qed

text \<open>
  The claim C7 fails in two ways. With the regularization 0 the step size is divided by
  zero, the infinite step times the error times the sample 0 is NaN, and the weight 1
  becomes NaN. With the step size \<^verbatim>\<open>0.3\<close> and the regularization \<^verbatim>\<open>1e-10\<close> of the test
  program and the desired sample \<^verbatim>\<open>1e300\<close>, the step \<^verbatim>\<open>3e9\<close> times the error
  overflows to infinity, and infinity times the sample 0 is NaN again.
\<close>

theorem zero_signal_counterexample:
  "AdaptiveFilterRun 0 (Fin 1)
     \<lparr>StepSize = Fin 1, Regularization = Fin 0, Length = 1,
      pBuffer = [Fin 0], BufferIdx = 0, pWeights = [Fin 1], Error = Fin 0\<rparr>
   = Some (Fin 0,
      \<lparr>StepSize = Fin 1, Regularization = Fin 0, Length = 1,
       pBuffer = [Fin 0], BufferIdx = 1, pWeights = [NaN], Error = Fin 1\<rparr>) \<and>
   AdaptiveFilterRun 0 (Fin (10 ^ 300))
     \<lparr>StepSize = Fin (3 / 10), Regularization = Fin (1 / 10 ^ 10), Length = 1,
      pBuffer = [Fin 0], BufferIdx = 0, pWeights = [Fin 1], Error = Fin 0\<rparr>
   = Some (Fin 0,
      \<lparr>StepSize = Fin (3 / 10), Regularization = Fin (1 / 10 ^ 10), Length = 1,
       pBuffer = [Fin 0], BufferIdx = 1, pWeights = [NaN], Error = Fin (10 ^ 300)\<rparr>)"
  by (simp add: AdaptiveFilterRun_def Filter_def insert_sample_def wrap_index_def wr_def rd_def
       loop_start_def AdaptWeights_def SquaredNorm_def zero_double_def minus_double_def
       to_double_def)

lemma div_zero_step: "w + x / 0 * e * 0 = NaN"
  by (cases w; cases x; cases e) (simp_all add: zero_double_def)

lemma map2_replicate_const:
  "length ws = n \<Longrightarrow> (\<And>w. f w c = d) \<Longrightarrow> map2 f ws (replicate n c) = replicate n d"
  by (rule nth_equalityI) simp_all

lemma nlms_update_degenerate:
  assumes "length ws = n"
  shows "nlms_update mu 0 err (replicate n 0) ws = replicate n NaN"
  unfolding nlms_update_def energy_zero
  by (intro map2_replicate_const [OF assms]) (simp add: div_zero_step)

lemma nonfinite_times: "\<not> is_finite a \<Longrightarrow> \<not> is_finite (a * b)"
  by (cases a; cases b) simp_all

lemma nonfinite_plus: "\<not> is_finite b \<Longrightarrow> \<not> is_finite (w + b)"
  by (cases w; cases b) simp_all

lemma nonfinite_div_zero: "\<not> is_finite (x / 0)"
  by (cases x) (simp_all add: zero_double_def)

lemma nonfinite_step: "\<not> is_finite (w + x / 0 * e * y)"
  by (intro nonfinite_plus nonfinite_times nonfinite_div_zero)

text \<open>
  C5, as the code has it. The weight update has no rule of its own for a denominator that
  is zero: it always returns, and the step is what the division of doubles by zero
  gives, an infinity or NaN. Whenever \<open>regularization + energy\<close> is zero, every weight
  \<open>i\<close> becomes \<open>weights[i] + stepSize / 0 * lastError * window[i]\<close>, which is never a
  finite value; with the regularization 0 and a buffer of zeros every weight becomes
  NaN, whatever the step size and the error are.
\<close>

theorem degenerate_denominator:
  assumes "valid_engine s"
  shows "\<exists>s'. AdaptWeights s = Some s' \<and>
           (Regularization s + foldl (\<lambda>acc x. acc + x * x) 0 (pBuffer s) = 0 \<longrightarrow>
              pWeights s' =
                map2 (\<lambda>w x. w + StepSize s / 0 * Error s * x) (pWeights s) (asVector s) \<and>
              list_all (\<lambda>w. \<not> is_finite w) (pWeights s')) \<and>
           (Regularization s = 0 \<and> pBuffer s = replicate (Length s) 0 \<longrightarrow>
              pWeights s' = replicate (Length s) NaN)"
proof -
  note v = valid_engineD [OF assms]
  obtain s1 where s1: "AdaptWeights s = Some s1"
      "pWeights s1 = nlms_update (StepSize s) (Regularization s) (Error s)
                           (asVector s) (pWeights s)"
    using AdaptWeights_props [OF assms] by blast
  have en: "foldl (\<lambda>acc x. acc + x * x) 0 (pBuffer s) = energy (asVector s)"
    using v by (simp add: foldl_energy energy_asVector)
  have a: "pWeights s1 =
             map2 (\<lambda>w x. w + StepSize s / 0 * Error s * x) (pWeights s) (asVector s) \<and>
           list_all (\<lambda>w. \<not> is_finite w) (pWeights s1)"
    if z: "Regularization s + foldl (\<lambda>acc x. acc + x * x) 0 (pBuffer s) = 0"
  proof -
    have eq: "pWeights s1 =
        map2 (\<lambda>w x. w + StepSize s / 0 * Error s * x) (pWeights s) (asVector s)"
      using s1(2) z unfolding en nlms_update_def by simp
    have "list_all (\<lambda>w. \<not> is_finite w)
        (map2 (\<lambda>w x. w + StepSize s / 0 * Error s * x) (pWeights s) (asVector s))"
      unfolding list_all_length by (simp add: nonfinite_step)
    then show ?thesis using eq by simp
  qed
  have b: "pWeights s1 = replicate (Length s) NaN"
    if "Regularization s = 0" "pBuffer s = replicate (Length s) 0"
    unfolding s1(2) using that asVector_zero [OF v(1)] nlms_update_degenerate [OF v(3)] by simp
  show ?thesis using s1(1) a b by blast
qed

theorem degenerate_denominator_witness:
  "valid_engine \<lparr>StepSize = Fin (3 / 10), Regularization = 0, Length = 2,
         pBuffer = replicate 2 0, BufferIdx = 0, pWeights = [Fin 1, Fin 2], Error = Fin 1\<rparr> \<and>
   (\<exists>s'. AdaptWeights
            \<lparr>StepSize = Fin (3 / 10), Regularization = 0, Length = 2,
             pBuffer = replicate 2 0, BufferIdx = 0, pWeights = [Fin 1, Fin 2], Error = Fin 1\<rparr>
           = Some s' \<and> pWeights s' = [NaN, NaN]) \<and>
   valid_engine \<lparr>StepSize = Fin (3 / 10), Regularization = 0, Length = 2,
         pBuffer = [Fin (1 / 2 ^ 540), Fin 0], BufferIdx = 2, pWeights = [Fin 1, Fin 2],
         Error = Fin 1\<rparr> \<and>
   0 + foldl (\<lambda>acc x. acc + x * x) 0 [Fin (1 / 2 ^ 540), Fin 0] = (0::double) \<and>
   (\<exists>s'. AdaptWeights
            \<lparr>StepSize = Fin (3 / 10), Regularization = 0, Length = 2,
             pBuffer = [Fin (1 / 2 ^ 540), Fin 0], BufferIdx = 2, pWeights = [Fin 1, Fin 2],
             Error = Fin 1\<rparr>
           = Some s' \<and> pWeights s' = [NaN, PInf] \<and>
           list_all (\<lambda>w. \<not> is_finite w) (pWeights s'))"
proof -
  let ?a = "\<lparr>StepSize = Fin (3 / 10), Regularization = 0, Length = 2,
         pBuffer = replicate 2 0, BufferIdx = 0, pWeights = [Fin 1, Fin 2], Error = Fin 1\<rparr>"
  let ?b = "\<lparr>StepSize = Fin (3 / 10), Regularization = 0, Length = 2,
         pBuffer = [Fin (1 / 2 ^ 540), Fin 0], BufferIdx = 2, pWeights = [Fin 1, Fin 2],
         Error = Fin 1\<rparr>"
  have va: "valid_engine ?a" by (simp add: valid_engine_def)
  have vb: "valid_engine ?b" by (simp add: valid_engine_def)
  have z: "0 + foldl (\<lambda>acc x. acc + x * x) 0 [Fin (1 / 2 ^ 540), Fin 0] = (0::double)"
    by (simp add: zero_double_def to_double_def)
  have ra: "\<exists>s'. AdaptWeights ?a = Some s' \<and> pWeights s' = [NaN, NaN]"
    using degenerate_denominator [OF va] by (auto simp: numeral_2_eq_2)
  obtain s' where s': "AdaptWeights ?b = Some s'"
    and imp: "Regularization ?b + foldl (\<lambda>acc x. acc + x * x) 0 (pBuffer ?b) = 0 \<longrightarrow>
        pWeights s' =
          map2 (\<lambda>w x. w + StepSize ?b / 0 * Error ?b * x) (pWeights ?b) (asVector ?b) \<and>
        list_all (\<lambda>w. \<not> is_finite w) (pWeights s')"
    using degenerate_denominator [OF vb] by blast
  have zb: "Regularization ?b + foldl (\<lambda>acc x. acc + x * x) 0 (pBuffer ?b) = 0"
    by (simp add: zero_double_def to_double_def)
  have k: "map2 (\<lambda>w x. w + StepSize ?b / 0 * Error ?b * x) (pWeights ?b) (asVector ?b)
      = [NaN, PInf]"
    by (simp add: asVector_def wrap_index_def upt_conv_Cons zero_double_def)
  have rb: "\<exists>s'. AdaptWeights ?b = Some s' \<and> pWeights s' = [NaN, PInf] \<and>
      list_all (\<lambda>w. \<not> is_finite w) (pWeights s')"
    using s' imp zb k by metis
  show ?thesis using va vb z ra rb by blast
qed

text \<open>
  One weight update with the regularization 0 on a buffer of zeros stores NaN in both
  weights: the claim C5 fails on the C code.
\<close>

theorem degenerate_denominator_counterexample:
  "AdaptWeights
     \<lparr>StepSize = Fin (3 / 10), Regularization = Fin 0, Length = 2,
      pBuffer = [Fin 0, Fin 0], BufferIdx = 0, pWeights = [Fin 1, Fin 2], Error = Fin 1\<rparr>
   = Some
      \<lparr>StepSize = Fin (3 / 10), Regularization = Fin 0, Length = 2,
       pBuffer = [Fin 0, Fin 0], BufferIdx = 2, pWeights = [NaN, NaN], Error = Fin 1\<rparr>"
  by (simp add: wrap_index_def rd_def loop_start_def AdaptWeights_def SquaredNorm_def
        zero_double_def)

lemma NLMS_eq:
  assumes "column_object AF" "Error_m AF = Some e"
  shows "NLMS AF =
     Some (AF\<lparr>Weights := nlms_update (StepSize_m AF) (Fin (1 / 10 ^ 10)) e
                              (Buffer AF) (Weights AF)\<rparr>)"
  using assms by (simp add: NLMS_def nlms_update_def energy_def Let_def)

lemma RunFilter_eq:
  assumes "column_object AF"
  shows "RunFilter AF x =
     Some (inner_product (Weights AF) (x # butlast (Buffer AF)),
           AF\<lparr>Buffer := x # butlast (Buffer AF)\<rparr>)"
  using assms by (simp add: RunFilter_def Let_def)

lemma column_object_update:
  assumes "column_object AF" "length ws = length (Weights AF)" "length B = length (Buffer AF)"
  shows "column_object (AF\<lparr>Weights := ws\<rparr>)" "column_object (AF\<lparr>Buffer := B\<rparr>)"
    "column_object (AF\<lparr>Error_m := e\<rparr>)"
  using assms by (auto simp: column_object_def)

lemma same_stateD:
  assumes "valid_engine s" "same_state s AF"
  shows "Weights AF = pWeights s" "Buffer AF = asVector s" "StepSize_m AF = StepSize s"
    "Regularization s = Fin (1 / 10 ^ 10)" "column_object AF"
    "Buffer_size AF = (Length s, 1)"
proof -
  have "length (asVector s) \<noteq> 0" using valid_engineD(1) [OF assms(1)] by simp
  then have "asVector s \<noteq> []" by (simp del: length_asVector)
  then show "Weights AF = pWeights s" "Buffer AF = asVector s" "StepSize_m AF = StepSize s"
    "Regularization s = Fin (1 / 10 ^ 10)" "column_object AF"
    "Buffer_size AF = (Length s, 1)"
    using assms valid_engineD [OF assms(1)] by (auto simp: same_state_def column_object_def)
qed

lemma step_refines:
  assumes "valid_engine s" "same_state s AF"
  shows "\<exists>out s' AF'. step c s = Some (out, s') \<and> step_m c AF = Some (out, AF') \<and>
           valid_engine s' \<and> same_state s' AF' \<and> Error_m AF' = Some (Error s')"
proof -
  note v = valid_engineD [OF assms(1)]
  note r = same_stateD [OF assms]
  show ?thesis
  proof (cases c)
    case (Run x d)
    let ?win = "x # butlast (asVector s)"
    let ?out = "inner_product (pWeights s) ?win"
    obtain s2 where s2: "AdaptiveFilterRun x d s = Some (?out, s2)"
        "asVector s2 = ?win" "Error s2 = d - ?out"
        "pWeights s2 = nlms_update (StepSize s) (Regularization s) (d - ?out) ?win (pWeights s)"
        "valid_engine s2" "StepSize s2 = StepSize s" "Regularization s2 = Regularization s"
      using Run_props [OF assms(1), of x d] by blast
    let ?AF1 = "AF\<lparr>Buffer := ?win\<rparr>"
    have f: "RunFilter AF x = Some (?out, ?AF1)"
      using RunFilter_eq [OF r(5), of x] r(1,2) by simp
    let ?AF1e = "?AF1\<lparr>Error_m := Some (d - ?out)\<rparr>"
    have l: "column_object ?AF1e"
      using r(2,5) v by (simp add: column_object_def)
    let ?AF2 = "?AF1e\<lparr>Weights := nlms_update (StepSize s) (Regularization s) (d - ?out)
                                 ?win (pWeights s)\<rparr>"
    have n: "NLMS ?AF1e = Some ?AF2"
      using NLMS_eq [OF l, of "d - ?out"] r(1,3,4) by simp
    have m: "Run_m AF x d = Some (?out, ?AF2)"
      by (simp add: Run_m_def f n)
    have ln: "Length s2 = Length s"
      using s2(2) v(1) by (metis length_asVector length_Cons length_butlast Suc_pred')
    have "same_state s2 ?AF2"
      using s2 r(3,4,6) ln by (simp add: same_state_def)
    moreover have "Error_m ?AF2 = Some (Error s2)" using s2(3) by simp
    ultimately show ?thesis using Run s2(1,5) m by auto
  next
    case (RunErrorIn x e)
    let ?ws = "nlms_update (StepSize s) (Regularization s) e (asVector s) (pWeights s)"
    let ?win = "x # butlast (asVector s)"
    obtain s2 where s2: "AdaptiveFilterRunErrorIn x e s = Some (inner_product ?ws ?win, s2)"
        "asVector s2 = ?win" "Error s2 = e" "pWeights s2 = ?ws"
        "valid_engine s2" "StepSize s2 = StepSize s" "Regularization s2 = Regularization s"
      using RunErrorIn_props [OF assms(1), of x e] by blast
    let ?AFe = "AF\<lparr>Error_m := Some e\<rparr>"
    let ?AF1 = "?AFe\<lparr>Weights := ?ws\<rparr>"
    have n: "NLMS ?AFe = Some ?AF1"
      using NLMS_eq [of ?AFe e] r by (simp add: column_object_def)
    have l: "column_object ?AF1"
      using r(1,2,5) v by (simp add: column_object_def length_nlms_update)
    let ?AF2 = "?AF1\<lparr>Buffer := ?win\<rparr>"
    have f: "RunFilter ?AF1 x = Some (inner_product ?ws ?win, ?AF2)"
      using RunFilter_eq [OF l, of x] r(2) by simp
    have m: "RunErrorInput AF x e = Some (inner_product ?ws ?win, ?AF2)"
      by (simp add: RunErrorInput_def n f)
    have ln: "Length s2 = Length s"
      using s2(2) v(1) by (metis length_asVector length_Cons length_butlast Suc_pred')
    have "same_state s2 ?AF2"
      using s2 r(3,4,6) ln by (simp add: same_state_def)
    moreover have "Error_m ?AF2 = Some (Error s2)" using s2(3) by simp
    ultimately show ?thesis using RunErrorIn s2(1,5) m by auto
  qed
qed

lemma drive_refines:
  assumes "valid_engine s" "same_state s AF"
  shows "\<exists>outs s' AF'. drive cs s = Some (outs, s') \<and> drive_m cs AF = Some (outs, AF') \<and>
           valid_engine s' \<and> same_state s' AF' \<and>
           (cs \<noteq> [] \<longrightarrow> Error_m AF' = Some (Error s'))"
  using assms
proof (induction cs arbitrary: s AF)
  case Nil
  then show ?case by simp
next
  case (Cons c cs)
  obtain out s1 AF1 where 1: "step c s = Some (out, s1)" "step_m c AF = Some (out, AF1)"
      "valid_engine s1" "same_state s1 AF1" "Error_m AF1 = Some (Error s1)"
    using step_refines [OF Cons.prems, of c] by blast
  obtain outs s2 AF2 where 2: "drive cs s1 = Some (outs, s2)" "drive_m cs AF1 = Some (outs, AF2)"
      "valid_engine s2" "same_state s2 AF2" "cs \<noteq> [] \<longrightarrow> Error_m AF2 = Some (Error s2)"
    using Cons.IH [OF 1(3,4)] by blast
  have "Error_m AF2 = Some (Error s2)"
  proof (cases cs)
    case Nil
    then show ?thesis using 1(5) 2(1,2) by simp
  next
    case (Cons a list)
    then show ?thesis using 2(5) by simp
  qed
  then show ?case using 1 2 by simp
qed

text \<open>
  C8. Started from the same abstract state (the same weights, the window of the circular
  buffer equal to the shift register, the same step size, the regularization equal to the
  prototype's constant) and driven by the same calls, the C engine and the Matlab
  prototype both return, with the same outputs, and end in the same abstract state again:
  the same weights, the same window and, once a call was made, the same error. This holds
  for every sequence of calls, hence after every step.
\<close>

theorem circular_refines_dense:
  assumes "valid_engine s" "same_state s AF"
  shows "\<exists>outs s' AF'. drive cs s = Some (outs, s') \<and> drive_m cs AF = Some (outs, AF') \<and>
           Weights AF' = pWeights s' \<and> Buffer AF' = asVector s' \<and> same_state s' AF' \<and>
           (cs \<noteq> [] \<longrightarrow> Error_m AF' = Some (Error s'))"
proof -
  obtain outs s' AF' where d: "drive cs s = Some (outs, s')" "drive_m cs AF = Some (outs, AF')"
      "same_state s' AF'" "cs \<noteq> [] \<longrightarrow> Error_m AF' = Some (Error s')"
    using drive_refines [OF assms, of cs] by blast
  then show ?thesis by (auto simp: same_state_def)
qed

theorem circular_refines_dense_witness:
  "valid_engine \<lparr>StepSize = Fin (3 / 10), Regularization = Fin (1 / 10 ^ 10), Length = 2,
         pBuffer = [Fin 1, Fin 2], BufferIdx = 2, pWeights = [Fin 1, Fin 1], Error = Fin 0\<rparr> \<and>
   same_state \<lparr>StepSize = Fin (3 / 10), Regularization = Fin (1 / 10 ^ 10), Length = 2,
         pBuffer = [Fin 1, Fin 2], BufferIdx = 2, pWeights = [Fin 1, Fin 1], Error = Fin 0\<rparr>
      \<lparr>Buffer = [Fin 2, Fin 1], Buffer_size = (2, 1), Weights = [Fin 1, Fin 1],
       StepSize_m = Fin (3 / 10),
       Error_m = None\<rparr> \<and>
   [Run (Fin 3) (Fin 6), RunErrorIn (Fin 4) (Fin 1)] \<noteq> [] \<and>
   (\<exists>outs s' AF'.
      drive [Run (Fin 3) (Fin 6), RunErrorIn (Fin 4) (Fin 1)]
        \<lparr>StepSize = Fin (3 / 10), Regularization = Fin (1 / 10 ^ 10), Length = 2,
         pBuffer = [Fin 1, Fin 2], BufferIdx = 2, pWeights = [Fin 1, Fin 1], Error = Fin 0\<rparr>
        = Some (outs, s') \<and>
      drive_m [Run (Fin 3) (Fin 6), RunErrorIn (Fin 4) (Fin 1)]
        \<lparr>Buffer = [Fin 2, Fin 1], Buffer_size = (2, 1), Weights = [Fin 1, Fin 1],
       StepSize_m = Fin (3 / 10),
         Error_m = None\<rparr>
        = Some (outs, AF') \<and>
      Weights AF' = pWeights s' \<and> Buffer AF' = asVector s' \<and>
      Error_m AF' = Some (Error s'))"
proof -
  let ?s = "\<lparr>StepSize = Fin (3 / 10), Regularization = Fin (1 / 10 ^ 10), Length = 2,
         pBuffer = [Fin 1, Fin 2], BufferIdx = 2, pWeights = [Fin 1, Fin 1], Error = Fin 0\<rparr>"
  let ?AF = "\<lparr>Buffer = [Fin 2, Fin 1], Buffer_size = (2, 1), Weights = [Fin 1, Fin 1],
       StepSize_m = Fin (3 / 10),
       Error_m = None\<rparr>"
  have v: "valid_engine ?s" by (simp add: valid_engine_def)
  have r: "same_state ?s ?AF"
    by (simp add: same_state_def asVector_def wrap_index_def upt_conv_Cons)
  show ?thesis
    using v r circular_refines_dense [OF v r, of "[Run (Fin 3) (Fin 6), RunErrorIn (Fin 4) (Fin 1)]"]
    by blast
qed

lemma step_m_column:
  assumes "column_object AF"
  shows "\<exists>out AF'. step_m c AF = Some (out, AF') \<and> column_object AF'"
proof (cases c)
  case (Run x d)
  let ?B = "x # butlast (Buffer AF)"
  let ?e = "d - inner_product (Weights AF) ?B"
  let ?AF1 = "AF\<lparr>Buffer := ?B, Error_m := Some ?e\<rparr>"
  let ?ws = "nlms_update (StepSize_m AF) (Fin (1 / 10 ^ 10)) ?e ?B (Weights AF)"
  have l: "column_object ?AF1"
    using assms by (simp add: column_object_def)
  have n: "NLMS ?AF1 = Some (?AF1\<lparr>Weights := ?ws\<rparr>)"
    using NLMS_eq [OF l, of ?e] by simp
  have "column_object (?AF1\<lparr>Weights := ?ws\<rparr>)"
    using assms by (simp add: column_object_def length_nlms_update)
  then show ?thesis
    using Run RunFilter_eq [OF assms, of x] n by (simp add: Run_m_def)
next
  case (RunErrorIn x e)
  let ?ws = "nlms_update (StepSize_m AF) (Fin (1 / 10 ^ 10)) e (Buffer AF) (Weights AF)"
  let ?AF1 = "AF\<lparr>Error_m := Some e, Weights := ?ws\<rparr>"
  have l: "column_object (AF\<lparr>Error_m := Some e\<rparr>)"
    using assms by (simp add: column_object_def)
  have n: "NLMS (AF\<lparr>Error_m := Some e\<rparr>) = Some ?AF1"
    using NLMS_eq [OF l, of e] by simp
  have l2: "column_object ?AF1"
    using assms by (simp add: column_object_def length_nlms_update)
  have "column_object (?AF1\<lparr>Buffer := x # butlast (Buffer ?AF1)\<rparr>)"
    using assms by (simp add: column_object_def length_nlms_update)
  then show ?thesis
    using RunErrorIn n RunFilter_eq [OF l2, of x] by (simp add: RunErrorInput_def)
qed

lemma drive_m_column:
  assumes "column_object AF"
  shows "\<exists>outs AF'. drive_m cs AF = Some (outs, AF') \<and> column_object AF'"
  using assms
proof (induction cs arbitrary: AF)
  case Nil
  then show ?case by simp
next
  case (Cons c cs)
  obtain out AF1 where 1: "step_m c AF = Some (out, AF1)" "column_object AF1"
    using step_m_column [OF Cons.prems, of c] by blast
  obtain outs AF2 where 2: "drive_m cs AF1 = Some (outs, AF2)" "column_object AF2"
    using Cons.IH [OF 1(2)] by blast
  show ?case using 1 2 by simp
qed

text \<open>
  C6, as the code has it. The constructor of the prototype fails exactly when \<^verbatim>\<open>Weights\<close> is
  not a vector (\<^verbatim>\<open>isvector\<close>) or \<^verbatim>\<open>StepSize\<close> is not a scalar (\<^verbatim>\<open>isscalar\<close>); the
  regularization is no argument of it. The checks are made at construction only: on an
  object built from an N-by-1 weight vector with \<open>N \<ge> 1\<close>, and on a valid state of the C
  engine, every sequence of calls of the two entry points returns and leaves an object
  or state of the same kind, and the insertion of a sample returns.
\<close>

theorem construction_checks:
  "(isl (AdaptiveFir_new W S) \<longleftrightarrow> \<not> isvector W \<or> \<not> isscalar S) \<and>
   (AdaptiveFir_new W S = Inr AF \<and> ncols W = 1 \<and> 1 \<le> nrows W \<longrightarrow>
      (\<exists>outs AF'. drive_m cs AF = Some (outs, AF') \<and> column_object AF')) \<and>
   (valid_engine s \<longrightarrow>
      (\<exists>s'. insert_sample x s = Some s') \<and>
      (\<exists>outs s'. drive cs s = Some (outs, s') \<and> valid_engine s'))"
proof (intro conjI impI)
  show "isl (AdaptiveFir_new W S) \<longleftrightarrow> \<not> isvector W \<or> \<not> isscalar S"
    by (simp add: AdaptiveFir_new_def)
next
  assume a: "AdaptiveFir_new W S = Inr AF \<and> ncols W = 1 \<and> 1 \<le> nrows W"
  then have "AF = \<lparr>Buffer = replicate (numel W) 0, Buffer_size = (nrows W, ncols W),
                Weights = map (entry W) [0..<numel W],
                StepSize_m = entry S 0, Error_m = None\<rparr>"
    by (auto simp: AdaptiveFir_new_def split: if_splits)
  moreover have "0 < numel W" "numel W = nrows W" using a by (simp_all add: numel_def)
  ultimately have "column_object AF"
    by (auto simp: column_object_def a)
  then show "\<exists>outs AF'. drive_m cs AF = Some (outs, AF') \<and> column_object AF'"
    by (rule drive_m_column)
next
  assume v: "valid_engine s"
  show "\<exists>s'. insert_sample x s = Some s'"
    using insert_sample_eq [OF v] by simp
  show "\<exists>outs s'. drive cs s = Some (outs, s') \<and> valid_engine s'"
    using drive_window [OF v, of cs] by blast
qed

theorem construction_checks_witness:
  "isl (AdaptiveFir_new (constant_array 0 0 0) (constant_array 1 1 (Fin (3 / 10)))) \<and>
   \<not> isvector (constant_array 0 0 0) \<and>
   isl (AdaptiveFir_new (constant_array 2 1 0) (constant_array 1 2 (Fin (3 / 10)))) \<and>
   \<not> isscalar (constant_array 1 2 (Fin (3 / 10))) \<and>
   AdaptiveFir_new (constant_array 2 1 0) (constant_array 1 1 (Fin (3 / 10)))
     = Inr \<lparr>Buffer = [0, 0], Buffer_size = (2, 1), Weights = [0, 0],
          StepSize_m = Fin (3 / 10), Error_m = None\<rparr> \<and>
   (\<exists>outs AF'. drive_m [Run (Fin 1) (Fin 2), RunErrorIn (Fin 3) (Fin 4), Run (Fin 5) (Fin 6)]
       \<lparr>Buffer = [0, 0], Buffer_size = (2, 1), Weights = [0, 0],
          StepSize_m = Fin (3 / 10), Error_m = None\<rparr>
     = Some (outs, AF')) \<and>
   valid_engine \<lparr>StepSize = Fin 1, Regularization = Fin 1, Length = 2,
         pBuffer = [Fin 1, Fin 2], BufferIdx = 2, pWeights = [Fin 1, Fin 1], Error = Fin 0\<rparr> \<and>
   (\<exists>outs s'. drive [Run (Fin 1) (Fin 2), RunErrorIn (Fin 3) (Fin 4), Run (Fin 5) (Fin 6)]
        \<lparr>StepSize = Fin 1, Regularization = Fin 1, Length = 2,
         pBuffer = [Fin 1, Fin 2], BufferIdx = 2, pWeights = [Fin 1, Fin 1], Error = Fin 0\<rparr>
      = Some (outs, s') \<and> valid_engine s')"
proof -
  let ?s = "\<lparr>StepSize = Fin 1, Regularization = Fin 1, Length = 2,
         pBuffer = [Fin 1, Fin 2], BufferIdx = 2, pWeights = [Fin 1, Fin 1], Error = Fin 0\<rparr>"
  let ?AF = "\<lparr>Buffer = [0, 0], Buffer_size = (2, 1), Weights = [0, 0],
          StepSize_m = Fin (3 / 10), Error_m = None\<rparr>"
  let ?cs = "[Run (Fin 1) (Fin 2), RunErrorIn (Fin 3) (Fin 4), Run (Fin 5) (Fin 6)]"
  have v: "valid_engine ?s" by (simp add: valid_engine_def)
  have n: "AdaptiveFir_new (constant_array 2 1 0) (constant_array 1 1 (Fin (3 / 10))) = Inr ?AF"
    by (simp add: AdaptiveFir_new_def constant_array_def isvector_def isscalar_def numel_def
          upt_conv_Cons numeral_2_eq_2)
  have 1: "isl (AdaptiveFir_new (constant_array 0 0 0) (constant_array 1 1 (Fin (3 / 10))))"
      "\<not> isvector (constant_array 0 0 0)"
    using construction_checks [of "constant_array 0 0 0" "constant_array 1 1 (Fin (3 / 10))"]
    by (simp_all add: isvector_def constant_array_def)
  have 2: "isl (AdaptiveFir_new (constant_array 2 1 0) (constant_array 1 2 (Fin (3 / 10))))"
      "\<not> isscalar (constant_array 1 2 (Fin (3 / 10)))"
    using construction_checks [of "constant_array 2 1 0" "constant_array 1 2 (Fin (3 / 10))"]
    by (simp_all add: isscalar_def constant_array_def)
  have c: "ncols (constant_array 2 1 0) = 1" "1 \<le> nrows (constant_array 2 1 0)"
    by (simp_all add: constant_array_def)
  have 3: "\<exists>outs AF'. drive_m ?cs ?AF = Some (outs, AF')"
    using construction_checks [where W = "constant_array 2 1 0"
        and S = "constant_array 1 1 (Fin (3 / 10))" and AF = ?AF and cs = ?cs] n c
    by blast
  have 4: "\<exists>outs s'. drive ?cs ?s = Some (outs, s') \<and> valid_engine s'"
    using construction_checks [where s = ?s and cs = ?cs] v by blast
  show ?thesis using 1 2 n 3 v 4 by blast
qed

text \<open>
  The claim C6 fails on the code in three ways: the constructor accepts the empty 1-by-0
  weight vector (\<open>L = 0\<close>); the C engine, which has no constructor, runs with the negative
  regularization \<open>- 2\<close> without any error; and the constructor accepts the 1-by-3 weight
  vector, for which the first call of either entry point is an error, since the buffer
  is a row.
\<close>

theorem construction_counterexample:
  "AdaptiveFir_new (constant_array 1 0 0) (constant_array 1 1 (Fin (3 / 10)))
     = Inr \<lparr>Buffer = [], Buffer_size = (1, 0), Weights = [],
            StepSize_m = Fin (3 / 10), Error_m = None\<rparr> \<and>
   AdaptiveFilterRun (Fin 1) (Fin 1)
     \<lparr>StepSize = Fin 1, Regularization = Fin (- 2), Length = 1,
      pBuffer = [Fin 0], BufferIdx = 0, pWeights = [Fin 0], Error = Fin 0\<rparr>
   = Some (Fin 0,
      \<lparr>StepSize = Fin 1, Regularization = Fin (- 2), Length = 1,
       pBuffer = [Fin 1], BufferIdx = 1, pWeights = [Fin (- 1)], Error = Fin 1\<rparr>) \<and>
   AdaptiveFir_new (constant_array 1 3 0) (constant_array 1 1 (Fin (3 / 10)))
     = Inr \<lparr>Buffer = [0, 0, 0], Buffer_size = (1, 3), Weights = [0, 0, 0],
            StepSize_m = Fin (3 / 10), Error_m = None\<rparr> \<and>
   step_m (Run (Fin 1) (Fin 1))
     \<lparr>Buffer = [0, 0, 0], Buffer_size = (1, 3), Weights = [0, 0, 0],
      StepSize_m = Fin (3 / 10), Error_m = None\<rparr> = None \<and>
   step_m (RunErrorIn (Fin 1) (Fin 1))
     \<lparr>Buffer = [0, 0, 0], Buffer_size = (1, 3), Weights = [0, 0, 0],
      StepSize_m = Fin (3 / 10), Error_m = None\<rparr> = None"
  by (simp add: AdaptiveFir_new_def constant_array_def isvector_def isscalar_def numel_def
       AdaptiveFilterRun_def Filter_def insert_sample_def wrap_index_def wr_def rd_def
       loop_start_def AdaptWeights_def SquaredNorm_def zero_double_def minus_double_def
       Run_m_def RunErrorInput_def RunFilter_def NLMS_def column_object_def
       upt_conv_Cons numeral_3_eq_3)

end
